theory Spec2Isabelle
  imports Main "HOL-Library.Sublist"
begin

text \<open>
  The code block extractor of \<open>src/js/app.js\<close>: the classes \<open>CodeBlock\<close> and
  \<open>CodeExtractor\<close>, with the string methods and the regular expressions they rest on.
\<close>

section \<open>Strings as JavaScript sees them\<close>

text \<open>
  A document is a \<open>string\<close>: one \<open>char\<close> per code unit, restricted to the code units
  below 256. The helpers below are the String methods that \<open>src/js/app.js\<close> calls.
\<close>

definition code :: "char \<Rightarrow> nat" where
  "code c = of_char c"

definition nl :: char where
  "nl = CHR 0x0A"

definition is_space_char :: "char \<Rightarrow> bool" where
  \<comment> \<open>\<open>\s\<close> and \<open>trim()\<close>: tab, LF, VT, FF, CR, space, no-break space\<close>
  "is_space_char c = (code c \<in> {9, 10, 11, 12, 13, 32, 160})"

definition is_word_char :: "char \<Rightarrow> bool" where
  \<comment> \<open>\<open>\w\<close>: \<open>[A-Za-z0-9_]\<close>\<close>
  "is_word_char c = (let n = code c in
     (65 \<le> n \<and> n \<le> 90) \<or> (97 \<le> n \<and> n \<le> 122) \<or> (48 \<le> n \<and> n \<le> 57) \<or> n = 95)"

definition is_line_terminator :: "char \<Rightarrow> bool" where
  "is_line_terminator c = (code c = 10 \<or> code c = 13)"

definition trim :: "string \<Rightarrow> string" where
  "trim s = rev (dropWhile is_space_char (rev (dropWhile is_space_char s)))"

fun split_nl :: "string \<Rightarrow> string list" where
  "split_nl [] = [[]]"
| "split_nl (c # cs) =
     (if c = nl then [] # split_nl cs
      else (case split_nl cs of l # ls \<Rightarrow> (c # l) # ls | [] \<Rightarrow> [[c]]))"

fun join_nl :: "string list \<Rightarrow> string" where
  "join_nl [] = []"
| "join_nl [l] = l"
| "join_nl (l # ls) = l @ nl # join_nl ls"

fun str_includes :: "string \<Rightarrow> string \<Rightarrow> bool" where
  "str_includes [] sub = (sub = [])"
| "str_includes (c # cs) sub = (prefix sub (c # cs) \<or> str_includes cs sub)"

section \<open>Regular expressions\<close>

text \<open>
  The patterns of the source are values of \<open>regex\<close>. A matcher state is the code unit
  before the current position, the text from the current position on, and the captures made
  so far. \<open>matchR\<close> lists the states in which a match that begins at a given state can end,
  in the order in which a backtracking matcher tries them: greedy quantifiers take the longer
  alternative first, lazy ones the shorter, and an iteration of a quantifier that consumes
  nothing is given up. \<open>search\<close> is \<open>exec\<close>: the first end state of the leftmost position that
  has one.
\<close>

datatype citem = CChar char | CRange char char | CWord | CSpace | CNotSpace

datatype regex =
    REps
  | RChar char
  | RDot
  | RClass "citem list"
  | RNotClass "citem list"
  | RBol
  | REol
  | RSeq regex regex
  | RAlt regex regex
  | RStar regex
  | RLazyStar regex
  | RPlus regex
  | ROpt regex
  | RGroup nat regex

datatype flags = Flags (ignoreCase: bool) (multiline: bool)

datatype mstate = MState (prev: "char option") (rest: string) (caps: "(nat \<times> string) list")

definition canon :: "char \<Rightarrow> char" where
  \<comment> \<open>\<open>Canonicalize\<close> under the \<open>i\<close> flag, for the letters a to z: the patterns that carry the
      flag spell out ASCII letters only, and no other code unit is canonicalized to one\<close>
  "canon c = (let n = code c in if 97 \<le> n \<and> n \<le> 122 then char_of (n - 32) else c)"

definition uncanon :: "char \<Rightarrow> char" where
  "uncanon c = (let n = code c in if 65 \<le> n \<and> n \<le> 90 then char_of (n + 32) else c)"

fun citem_has :: "citem \<Rightarrow> char \<Rightarrow> bool" where
  "citem_has (CChar a) c = (c = a)"
| "citem_has (CRange a b) c = (code a \<le> code c \<and> code c \<le> code b)"
| "citem_has CWord c = is_word_char c"
| "citem_has CSpace c = is_space_char c"
| "citem_has CNotSpace c = (\<not> is_space_char c)"

definition class_has :: "flags \<Rightarrow> citem list \<Rightarrow> char \<Rightarrow> bool" where
  "class_has f A c =
     (if ignoreCase f then list_ex (\<lambda>i. citem_has i (canon c) \<or> citem_has i (uncanon c)) A
      else list_ex (\<lambda>i. citem_has i c) A)"

definition char_eq :: "flags \<Rightarrow> char \<Rightarrow> char \<Rightarrow> bool" where
  "char_eq f a c = (if ignoreCase f then canon c = canon a else c = a)"

fun step_char :: "(char \<Rightarrow> bool) \<Rightarrow> mstate \<Rightarrow> mstate list" where
  "step_char P (MState p [] cs) = []"
| "step_char P (MState p (c # r) cs) = (if P c then [MState (Some c) r cs] else [])"

definition at_bol :: "flags \<Rightarrow> mstate \<Rightarrow> bool" where
  "at_bol f st = (case prev st of None \<Rightarrow> True | Some c \<Rightarrow> multiline f \<and> is_line_terminator c)"

definition at_eol :: "flags \<Rightarrow> mstate \<Rightarrow> bool" where
  "at_eol f st = (case rest st of [] \<Rightarrow> True | c # _ \<Rightarrow> multiline f \<and> is_line_terminator c)"

definition advanced :: "mstate \<Rightarrow> mstate \<Rightarrow> bool" where
  "advanced st st' = (length (rest st') < length (rest st))"

function star_greedy :: "(mstate \<Rightarrow> mstate list) \<Rightarrow> mstate \<Rightarrow> mstate list" where
  "star_greedy m st = concat (map (star_greedy m) (filter (advanced st) (m st))) @ [st]"
  by pat_completeness auto
termination
  by (relation "measure (\<lambda>(m, st). length (rest st))") (auto simp: advanced_def)

function star_lazy :: "(mstate \<Rightarrow> mstate list) \<Rightarrow> mstate \<Rightarrow> mstate list" where
  "star_lazy m st = st # concat (map (star_lazy m) (filter (advanced st) (m st)))"
  by pat_completeness auto
termination
  by (relation "measure (\<lambda>(m, st). length (rest st))") (auto simp: advanced_def)

declare star_greedy.simps [simp del] star_lazy.simps [simp del]

definition set_cap :: "nat \<Rightarrow> mstate \<Rightarrow> mstate \<Rightarrow> mstate" where
  "set_cap k st st' =
     MState (prev st') (rest st')
       ((k, take (length (rest st) - length (rest st')) (rest st)) # caps st')"

function matchR :: "flags \<Rightarrow> regex \<Rightarrow> mstate \<Rightarrow> mstate list" where
  "matchR f REps st = [st]"
| "matchR f (RChar a) st = step_char (char_eq f a) st"
| "matchR f RDot st = step_char (\<lambda>c. \<not> is_line_terminator c) st"
| "matchR f (RClass A) st = step_char (class_has f A) st"
| "matchR f (RNotClass A) st = step_char (\<lambda>c. \<not> class_has f A c) st"
| "matchR f RBol st = (if at_bol f st then [st] else [])"
| "matchR f REol st = (if at_eol f st then [st] else [])"
| "matchR f (RSeq r1 r2) st = concat (map (matchR f r2) (matchR f r1 st))"
| "matchR f (RAlt r1 r2) st = matchR f r1 st @ matchR f r2 st"
| "matchR f (RStar r) st = star_greedy (matchR f r) st"
| "matchR f (RLazyStar r) st = star_lazy (matchR f r) st"
| "matchR f (RPlus r) st = concat (map (star_greedy (matchR f r)) (matchR f r st))"
| "matchR f (ROpt r) st = filter (advanced st) (matchR f r st) @ [st]"
| "matchR f (RGroup k r) st = map (set_cap k st) (matchR f r st)"
  by pat_completeness auto
termination
  by (relation "measure (\<lambda>(f, r, st). size r)") auto

fun search :: "flags \<Rightarrow> regex \<Rightarrow> char option \<Rightarrow> string \<Rightarrow> (mstate \<times> mstate) option" where
  "search f r p [] =
     (case matchR f r (MState p [] []) of e # _ \<Rightarrow> Some (MState p [] [], e) | [] \<Rightarrow> None)"
| "search f r p (c # s) =
     (case matchR f r (MState p (c # s) []) of
        e # _ \<Rightarrow> Some (MState p (c # s) [], e)
      | [] \<Rightarrow> search f r (Some c) s)"

definition test :: "flags \<Rightarrow> regex \<Rightarrow> string \<Rightarrow> bool" where
  "test f r s = (search f r None s \<noteq> None)"

definition lit :: "string \<Rightarrow> regex" where
  "lit s = foldr (\<lambda>c r. RSeq (RChar c) r) s REps"

definition seqs :: "regex list \<Rightarrow> regex" where
  "seqs rs = foldr RSeq rs REps"

definition matchGroup :: "mstate \<Rightarrow> nat \<Rightarrow> string option" where
  \<comment> \<open>\<open>match[k]\<close>; \<open>None\<close> is \<open>undefined\<close>\<close>
  "matchGroup e k = map_of (caps e) k"

definition noflags :: flags where "noflags = Flags False False"
definition iflag :: flags where "iflag = Flags True False"
definition mflag :: flags where "mflag = Flags False True"

abbreviation sp_plus :: regex where "sp_plus \<equiv> RPlus (RClass [CSpace])"
abbreviation sp_star :: regex where "sp_star \<equiv> RStar (RClass [CSpace])"
abbreviation w_plus :: regex where "w_plus \<equiv> RPlus (RClass [CWord])"
abbreviation w_star :: regex where "w_star \<equiv> RStar (RClass [CWord])"
abbreviation dot_star :: regex where "dot_star \<equiv> RStar RDot"

subsection \<open>A match never moves backwards\<close>

lemma step_char_rest:
  "e \<in> set (step_char P st) \<Longrightarrow> Suc (length (rest e)) = length (rest st)"
  by (cases "(P, st)" rule: step_char.cases) (auto split: if_splits)

lemma star_greedy_rest:
  "e \<in> set (star_greedy m st) \<Longrightarrow> length (rest e) \<le> length (rest st)"
proof (induction m st arbitrary: e rule: star_greedy.induct)
  case (1 m st)
  from "1.prems" consider "e = st"
    | x where "x \<in> set (m st)" "advanced st x" "e \<in> set (star_greedy m x)"
    by (subst (asm) star_greedy.simps) auto
  then show ?case
  proof cases
    case 1
    then show ?thesis by simp
  next
    case 2
    with "1.IH" [of x e] show ?thesis by (simp add: advanced_def)
  qed
qed

lemma star_lazy_rest:
  "e \<in> set (star_lazy m st) \<Longrightarrow> length (rest e) \<le> length (rest st)"
proof (induction m st arbitrary: e rule: star_lazy.induct)
  case (1 m st)
  from "1.prems" consider "e = st"
    | x where "x \<in> set (m st)" "advanced st x" "e \<in> set (star_lazy m x)"
    by (subst (asm) star_lazy.simps) auto
  then show ?case
  proof cases
    case 1
    then show ?thesis by simp
  next
    case 2
    with "1.IH" [of x e] show ?thesis by (simp add: advanced_def)
  qed
qed

lemma matchR_rest:
  "e \<in> set (matchR f r st) \<Longrightarrow> length (rest e) \<le> length (rest st)"
proof (induction r arbitrary: st e)
  case (RSeq r1 r2)
  then obtain x where "x \<in> set (matchR f r1 st)" "e \<in> set (matchR f r2 x)" by auto
  with RSeq.IH [of x st] RSeq.IH(2) [of e x] show ?case by simp
next
  case (RPlus r)
  then obtain x where x: "x \<in> set (matchR f r st)" "e \<in> set (star_greedy (matchR f r) x)"
    by auto
  from x(2) have "length (rest e) \<le> length (rest x)" by (rule star_greedy_rest)
  with RPlus.IH [OF x(1)] show ?case by simp
next
  case (RGroup k r)
  then obtain x where "x \<in> set (matchR f r st)" "e = set_cap k st x" by auto
  with RGroup.IH [of x st] show ?case by (simp add: set_cap_def)
qed (auto dest: step_char_rest star_greedy_rest star_lazy_rest split: if_splits)

lemma search_bounds:
  "search f r p s = Some (b, e) \<Longrightarrow>
     length (rest b) \<le> length s \<and> e \<in> set (matchR f r b)"
proof (induction s arbitrary: p)
  case Nil
  then show ?case by (auto split: list.splits)
next
  case (Cons c s)
  show ?case
  proof (cases "matchR f r (MState p (c # s) [])")
    case Nil
    with Cons.prems have "search f r (Some c) s = Some (b, e)" by simp
    from Cons.IH [OF this] show ?thesis by simp
  next
    case (Cons e' es)
    with Cons.prems show ?thesis by auto
  qed
qed

lemma search_rest_le:
  "search f r p s = Some (b, e) \<Longrightarrow> length (rest e) \<le> length s"
  using search_bounds [of f r p s b e] matchR_rest [of e f r b] by simp

lemma matchR_RChar_seq_rest:
  "e \<in> set (matchR f (RSeq (RChar a) r) st) \<Longrightarrow> length (rest e) < length (rest st)"
proof -
  assume "e \<in> set (matchR f (RSeq (RChar a) r) st)"
  then obtain x where x: "x \<in> set (step_char (char_eq f a) st)" "e \<in> set (matchR f r x)"
    by auto
  from x(1) have "Suc (length (rest x)) = length (rest st)" by (rule step_char_rest)
  with matchR_rest [OF x(2)] show ?thesis by simp
qed

section \<open>CodeBlock\<close>

record CodeBlock =
  content :: string
  language :: string
  startLine :: nat
  hash :: string

subsection \<open>detectLanguage\<close>

text \<open>
  The \<open>patterns\<close> object of \<open>detectLanguage\<close>, in the order of its keys
  (\<open>Object.entries\<close> enumerates string keys in insertion order). Every signature carries
  its own flags. The first \<open>bash\<close> signature is written \<open>/#!/bin\/bash/\<close> in the source;
  it is taken as the signature \<open>#!/bin/bash\<close> that the escapes of its tail spell out.
\<close>

definition patterns :: "(string \<times> (flags \<times> regex) list) list" where
  "patterns =
   [(''python'',
      [(noflags, seqs [lit ''def'', sp_plus, w_plus, RChar CHR ''('']),
       (noflags, seqs [lit ''import'', sp_plus, w_plus]),
       (noflags, seqs [lit ''from'', sp_plus, w_plus, sp_plus, lit ''import'']),
       (noflags, seqs [lit ''print'', sp_star, RChar CHR ''('']),
       (noflags, seqs [lit ''class'', sp_plus, w_plus])]),
    (''javascript'',
      [(noflags, seqs [lit ''function'', sp_plus, w_plus, RChar CHR ''('']),
       (noflags, seqs [lit ''const'', sp_plus, w_plus, sp_star, RChar CHR ''='']),
       (noflags, seqs [lit ''let'', sp_plus, w_plus, sp_star, RChar CHR ''='']),
       (noflags, lit ''console.log(''),
       (noflags, lit ''document.'')]),
    (''java'',
      [(noflags, seqs [lit ''public'', sp_plus, lit ''class'', sp_plus, w_plus]),
       (noflags, seqs [lit ''public'', sp_plus, lit ''static'', sp_plus, lit ''void'', sp_plus,
                       lit ''main'']),
       (noflags, lit ''System.out.print'')]),
    (''c'',
      [(noflags, seqs [lit ''#include'', sp_star, RChar CHR ''<'']),
       (noflags, seqs [lit ''int'', sp_plus, lit ''main'', sp_star, RChar CHR ''('']),
       (noflags, seqs [lit ''printf'', sp_star, RChar CHR ''(''])]),
    (''cpp'',
      [(noflags, seqs [lit ''#include'', sp_star, RChar CHR ''<'']),
       (noflags, lit ''std::''),
       (noflags, seqs [lit ''cout'', sp_star, lit ''<<''])]),
    (''html'',
      [(noflags, lit ''<html''),
       (noflags, lit ''<div''),
       (noflags, lit ''<body''),
       (noflags, lit ''<!DOCTYPE'')]),
    (''css'',
      [(noflags, seqs [w_plus, sp_star, RChar CHR ''{'', RStar (RNotClass [CChar CHR ''}'']),
                       RChar CHR ''}'']),
       (noflags, lit ''@media''),
       (noflags, seqs [RChar CHR ''.'', RPlus (RClass [CWord, CChar CHR ''-'']), sp_star,
                       RChar CHR ''{''])]),
    (''sql'',
      [(iflag, seqs [lit ''SELECT'', sp_plus]),
       (iflag, seqs [lit ''FROM'', sp_plus]),
       (iflag, seqs [lit ''WHERE'', sp_plus]),
       (iflag, seqs [lit ''INSERT'', sp_plus, lit ''INTO''])]),
    (''bash'',
      [(noflags, lit ''#!/bin/bash''),
       (noflags, seqs [lit ''echo'', sp_plus]),
       (noflags, seqs [RChar CHR ''$'', w_plus]),
       (noflags, seqs [lit ''if'', sp_star, RChar CHR ''['', sp_star])]),
    (''dockerfile'',
      [(noflags, seqs [lit ''FROM'', sp_plus, w_plus]),
       (noflags, seqs [lit ''RUN'', sp_plus]),
       (noflags, seqs [lit ''COPY'', sp_plus]),
       (noflags, seqs [lit ''WORKDIR'', sp_plus]),
       (noflags, seqs [lit ''EXPOSE'', sp_plus]),
       (noflags, seqs [lit ''CMD'', sp_star, RChar CHR ''[''])]),
    (''json'',
      [(noflags, seqs [RBol, sp_star, RChar CHR ''{'']),
       (noflags, seqs [RBol, sp_star, RChar CHR ''['']),
       (noflags, seqs [RChar (CHR 0x22), w_plus, RChar (CHR 0x22), RChar CHR '':'', sp_star])]),
    (''yaml'',
      [(mflag, seqs [RBol, w_plus, RChar CHR '':'']),
       (mflag, seqs [RBol, sp_star, RChar CHR ''-'', sp_plus, w_plus])]),
    (''xml'',
      [(noflags, lit ''<?xml''),
       (noflags, seqs [RChar CHR ''<'', w_plus, dot_star, RChar CHR ''>'', dot_star,
                       lit ''</'', w_plus, RChar CHR ''>''])])]"

text \<open>The inner loop: does some signature of the list match?\<close>

fun anyPatternMatches :: "(flags \<times> regex) list \<Rightarrow> string \<Rightarrow> bool" where
  "anyPatternMatches [] c = False"
| "anyPatternMatches (p # ps) c = (if test (fst p) (snd p) c then True else anyPatternMatches ps c)"

text \<open>The outer loop: the first language with a matching signature, else \<open>txt\<close>.\<close>

fun detectLoop :: "(string \<times> (flags \<times> regex) list) list \<Rightarrow> string \<Rightarrow> string" where
  "detectLoop [] c = ''txt''"
| "detectLoop (e # es) c = (if anyPatternMatches (snd e) c then fst e else detectLoop es c)"

definition detectLanguage :: "string \<Rightarrow> string" where
  \<comment> \<open>the argument is \<open>this.content\<close>; the lower-cased copy the source makes is never read\<close>
  "detectLanguage c = detectLoop patterns c"

subsection \<open>getFileExtension\<close>

definition extensions :: "(string \<times> string) list" where
  "extensions =
   [(''python'', ''.py''), (''javascript'', ''.js''), (''java'', ''.java''), (''c'', ''.c''),
    (''cpp'', ''.cpp''), (''html'', ''.html''), (''css'', ''.css''), (''sql'', ''.sql''),
    (''bash'', ''.sh''), (''dockerfile'', ''.dockerfile''), (''json'', ''.json''),
    (''yaml'', ''.yml''), (''xml'', ''.xml''), (''txt'', ''.txt'')]"

definition getFileExtension :: "CodeBlock \<Rightarrow> string" where
  \<comment> \<open>\<open>extensions[this.language] || '.txt'\<close>, for a label that is a key of the table or no
      property at all; a label such as \<open>constructor\<close>, which names a property every object
      inherits, is not covered\<close>
  "getFileExtension b = (case map_of extensions (language b) of Some e \<Rightarrow> e | None \<Rightarrow> ''.txt'')"

subsection \<open>generateHash\<close>

definition toInt32 :: "int \<Rightarrow> int" where
  "toInt32 x = (x + 2 ^ 31) mod 2 ^ 32 - 2 ^ 31"

definition hashStep :: "int \<Rightarrow> char \<Rightarrow> int" where
  \<comment> \<open>\<open>hash = ((hash << 5) - hash) + char; hash = hash & hash\<close>\<close>
  "hashStep h c = toInt32 (toInt32 (h * 32) - h + int (code c))"

definition hexDigit :: "nat \<Rightarrow> char" where
  "hexDigit d = (if d < 10 then char_of (48 + d) else char_of (87 + d))"

function toHex :: "int \<Rightarrow> string" where
  \<comment> \<open>\<open>toString(16)\<close> of a number that is not negative\<close>
  "toHex n =
     (if n < 16 then [hexDigit (nat n)] else toHex (n div 16) @ [hexDigit (nat (n mod 16))])"
  by pat_completeness auto
termination
  by (relation "measure nat") auto

declare toHex.simps [simp del]

function toDecimal :: "nat \<Rightarrow> string" where
  \<comment> \<open>\<open>toString()\<close>\<close>
  "toDecimal n = (if n < 10 then [hexDigit n] else toDecimal (n div 10) @ [hexDigit (n mod 10)])"
  by pat_completeness auto
termination
  by (relation "measure id") auto

declare toDecimal.simps [simp del]

definition padStart :: "nat \<Rightarrow> char \<Rightarrow> string \<Rightarrow> string" where
  "padStart w c s = replicate (w - length s) c @ s"

definition generateHash :: "string \<Rightarrow> string" where
  "generateHash c =
     (if length c = 0 then padStart 8 CHR ''0'' (toHex 0)
      else take 8 (padStart 8 CHR ''0'' (toHex \<bar>foldl hashStep 0 c\<bar>)))"

subsection \<open>The constructor\<close>

definition newCodeBlock :: "string \<Rightarrow> string option \<Rightarrow> nat \<Rightarrow> CodeBlock" where
  \<comment> \<open>\<open>language || this.detectLanguage()\<close>: \<open>undefined\<close>, \<open>null\<close> and the empty string are falsy\<close>
  "newCodeBlock c lang start =
     (let c' = trim c in
      \<lparr>content = c',
       language = (case lang of None \<Rightarrow> detectLanguage c'
                   | Some l \<Rightarrow> if l = [] then detectLanguage c' else l),
       startLine = start,
       hash = generateHash c'\<rparr>)"

section \<open>CodeExtractor\<close>

record Stats =
  filesProcessed :: nat
  codeBlocksFound :: nat
  languagesDetected :: "string list"
  topicsCreated :: "string list"

definition set_add :: "string list \<Rightarrow> string \<Rightarrow> string list" where
  \<comment> \<open>\<open>Set.prototype.add\<close>: a \<open>Set\<close> keeps its members in insertion order\<close>
  "set_add xs x = (if x \<in> set xs then xs else xs @ [x])"

definition emptyStats :: Stats where
  "emptyStats = \<lparr>filesProcessed = 0, codeBlocksFound = 0, languagesDetected = [],
                 topicsCreated = []\<rparr>"

subsection \<open>extractMarkdownCodeBlocks\<close>

definition fencedPattern :: regex where
  \<comment> \<open>\<open>/```(\w+)?\n([\s\S]*?)\n```/g\<close>; the first backquote stands apart from the other two
      so that a match visibly consumes text\<close>
  "fencedPattern =
     RSeq (RChar CHR ''`'')
       (seqs [lit ''``'', ROpt (RGroup 1 w_plus), RChar nl,
              RGroup 2 (RLazyStar (RClass [CSpace, CNotSpace])), RChar nl, lit ''```''])"

definition fencedBlock :: "string \<Rightarrow> mstate \<Rightarrow> mstate \<Rightarrow> CodeBlock list" where
  \<comment> \<open>the body of the \<open>while\<close> loop for the match that starts at \<open>b\<close> and ends at \<open>e\<close>;
      the second group takes part in every match\<close>
  "fencedBlock doc b e =
     (let language = matchGroup e 1;
          codeContent = (case matchGroup e 2 of Some c \<Rightarrow> c | None \<Rightarrow> []);
          index = length doc - length (rest b);
          startLine = length (split_nl (take index doc))
      in if trim codeContent \<noteq> [] \<and> length (trim codeContent) > 20
         then [newCodeBlock codeContent language startLine] else [])"

function fencedLoop :: "string \<Rightarrow> char option \<Rightarrow> string \<Rightarrow> CodeBlock list" where
  \<comment> \<open>\<open>while ((match = pattern.exec(content)) !== null)\<close>, resumed at \<open>lastIndex\<close>\<close>
  "fencedLoop doc p s =
     (case search noflags fencedPattern p s of
        None \<Rightarrow> []
      | Some (b, e) \<Rightarrow> fencedBlock doc b e @ fencedLoop doc (prev e) (rest e))"
  by pat_completeness auto
termination
proof (relation "measure (\<lambda>(doc, p, s). length s)", goal_cases)
  case 1
  show ?case by simp
next
  case (2 doc p s x b e)
  then have "search noflags fencedPattern p s = Some (b, e)" by simp
  from search_bounds [OF this]
  have "length (rest b) \<le> length s" "e \<in> set (matchR noflags fencedPattern b)" by simp_all
  from this(2) have "length (rest e) < length (rest b)"
    unfolding fencedPattern_def by (rule matchR_RChar_seq_rest)
  with \<open>length (rest b) \<le> length s\<close> show ?case by simp
qed

declare fencedLoop.simps [simp del]

definition extractMarkdownCodeBlocks :: "string \<Rightarrow> CodeBlock list" where
  "extractMarkdownCodeBlocks doc = fencedLoop doc None doc"

subsection \<open>looksLikeCode\<close>

definition codePatterns :: "regex list" where
  "codePatterns =
   [seqs [RClass [CRange CHR ''a'' CHR ''z'', CRange CHR ''A'' CHR ''Z'', CChar CHR ''_''],
          w_star, sp_star, RChar CHR ''(''],
    seqs [RClass [CRange CHR ''a'' CHR ''z'', CRange CHR ''A'' CHR ''Z'', CChar CHR ''_''],
          w_star, sp_star, RChar CHR ''=''],
    seqs [RChar CHR ''{'', RStar (RNotClass [CChar CHR ''}'']), RChar CHR ''}''],
    seqs [RClass [CChar (CHR 0x22), CChar (CHR 0x27)],
          RStar (RNotClass [CChar (CHR 0x22), CChar (CHR 0x27)]),
          RClass [CChar (CHR 0x22), CChar (CHR 0x27)]],
    RAlt (seqs [lit ''//'', dot_star])
      (RAlt (seqs [lit ''/*'', dot_star, lit ''*/'']) (seqs [RChar CHR ''#'', dot_star])),
    seqs [w_plus, RChar CHR ''.'', w_plus],
    RAlt (seqs [lit ''if'', sp_star, RChar CHR ''(''])
      (RAlt (seqs [lit ''while'', sp_star, RChar CHR ''(''])
            (seqs [lit ''for'', sp_star, RChar CHR ''(''])),
    seqs [RChar CHR ''<'', ROpt (RChar CHR ''/''), w_plus, RStar (RNotClass [CChar CHR ''>'']),
          RChar CHR ''>''],
    seqs [RPlus (RClass [CRange CHR ''a'' CHR ''z'', CRange CHR ''A'' CHR ''Z'', CChar CHR ''-'']),
          RChar CHR '':'', sp_star, RPlus (RNotClass [CChar CHR '';'']), RChar CHR '';'']]"

fun countMatches :: "regex list \<Rightarrow> string \<Rightarrow> nat" where
  "countMatches [] c = 0"
| "countMatches (p # ps) c = (if test noflags p c then 1 else 0) + countMatches ps c"

definition looksLikeCode :: "string \<Rightarrow> bool" where
  "looksLikeCode c = (countMatches codePatterns c \<ge> 2)"

subsection \<open>extractIndentedCodeBlocks\<close>

definition indentPattern :: regex where
  \<comment> \<open>\<open>/^(    |\t)/\<close>\<close>
  "indentPattern = RSeq RBol (RGroup 1 (RAlt (lit ''    '') (RChar (CHR 0x09))))"

definition flushBlock :: "string list \<Rightarrow> nat \<Rightarrow> CodeBlock list" where
  \<comment> \<open>what a finished run adds to \<open>codeBlocks\<close>; the source has this text twice, in the loop
      and after it\<close>
  "flushBlock currentBlock currentStart =
     (if length currentBlock > 0 \<and> list_ex (\<lambda>l. trim l \<noteq> []) currentBlock then
        (let blockContent = trim (join_nl currentBlock) in
         if blockContent \<noteq> [] \<and> length currentBlock > 3 \<and> length blockContent > 50 then
           (if looksLikeCode blockContent then [newCodeBlock blockContent None currentStart]
            else [])
         else [])
      else [])"

definition isIndented :: "string \<Rightarrow> string list \<Rightarrow> bool" where
  "isIndented line currentBlock =
     (test noflags indentPattern line \<or> (trim line = [] \<and> length currentBlock > 0))"

fun indentedLoop ::
  "string list \<Rightarrow> nat \<Rightarrow> string list \<Rightarrow> nat \<Rightarrow> CodeBlock list \<Rightarrow> CodeBlock list" where
  "indentedLoop [] i currentBlock currentStart codeBlocks =
     codeBlocks @ flushBlock currentBlock currentStart"
| "indentedLoop (line # lines) i currentBlock currentStart codeBlocks =
     (if isIndented line currentBlock then
        indentedLoop lines (i + 1) (currentBlock @ [line])
          (if length currentBlock = 0 then i else currentStart) codeBlocks
      else
        indentedLoop lines (i + 1) [] currentStart
          (codeBlocks @ flushBlock currentBlock currentStart))"

definition extractIndentedCodeBlocks :: "string \<Rightarrow> CodeBlock list" where
  "extractIndentedCodeBlocks doc = indentedLoop (split_nl doc) 0 [] 0 []"

subsection \<open>extractCodeBlocks\<close>

definition overlaps :: "CodeBlock \<Rightarrow> CodeBlock \<Rightarrow> bool" where
  "overlaps indentedBlock existingBlock =
     (\<bar>int (startLine indentedBlock) - int (startLine existingBlock)\<bar> < 5 \<and>
      str_includes (content existingBlock) (take 100 (content indentedBlock)))"

fun isDuplicate :: "CodeBlock \<Rightarrow> CodeBlock list \<Rightarrow> bool" where
  "isDuplicate indentedBlock [] = False"
| "isDuplicate indentedBlock (existingBlock # bs) =
     (if overlaps indentedBlock existingBlock then True else isDuplicate indentedBlock bs)"

fun dedupLoop :: "CodeBlock list \<Rightarrow> CodeBlock list \<Rightarrow> CodeBlock list" where
  "dedupLoop codeBlocks [] = codeBlocks"
| "dedupLoop codeBlocks (indentedBlock # bs) =
     (if isDuplicate indentedBlock codeBlocks then dedupLoop codeBlocks bs
      else dedupLoop (codeBlocks @ [indentedBlock]) bs)"

definition extractCodeBlocks :: "string \<Rightarrow> CodeBlock list" where
  "extractCodeBlocks doc =
     dedupLoop (extractMarkdownCodeBlocks doc) (extractIndentedCodeBlocks doc)"

subsection \<open>String.prototype.replace\<close>

function replace_all :: "flags \<Rightarrow> regex \<Rightarrow> string \<Rightarrow> char option \<Rightarrow> string \<Rightarrow> string" where
  \<comment> \<open>\<open>s.replace(/r/g, repl)\<close>: after an empty match the scan moves on by one code unit\<close>
  "replace_all f r repl p s =
     (case search f r p s of
        None \<Rightarrow> s
      | Some (b, e) \<Rightarrow>
          take (length s - length (rest b)) s @ repl @
          (if length (rest e) < length (rest b) then replace_all f r repl (prev e) (rest e)
           else (case rest e of [] \<Rightarrow> [] | c # cs \<Rightarrow> c # replace_all f r repl (Some c) cs)))"
  by pat_completeness auto
termination
proof (relation "measure (\<lambda>(f, r, repl, p, s). length s)", goal_cases)
  case 1
  show ?case by simp
next
  case (2 f r repl p s x b e)
  then have "search f r p s = Some (b, e)" by simp
  from search_bounds [OF this] 2(3) show ?case by simp
next
  case (3 f r repl p s x b e c cs)
  then have "search f r p s = Some (b, e)" by simp
  from search_rest_le [OF this] 3(4) show ?case by simp
qed

declare replace_all.simps [simp del]

definition replace_first :: "flags \<Rightarrow> regex \<Rightarrow> string \<Rightarrow> string \<Rightarrow> string" where
  \<comment> \<open>\<open>s.replace(/r/, repl)\<close>\<close>
  "replace_first f r repl s =
     (case search f r None s of
        None \<Rightarrow> s
      | Some (b, e) \<Rightarrow> take (length s - length (rest b)) s @ repl @ rest e)"

subsection \<open>generateTopicName\<close>

definition titlePatterns :: "regex list" where
  \<comment> \<open>all four carry the \<open>m\<close> flag\<close>
  "titlePatterns =
   [seqs [RBol, RChar CHR ''#'', sp_plus, RGroup 1 (RPlus RDot), REol],
    seqs [RBol, lit ''##'', sp_plus, RGroup 1 (RPlus RDot), REol],
    seqs [RBol, lit ''Title:'', sp_star, RGroup 1 (RPlus RDot), REol],
    seqs [RBol, lit ''Subject:'', sp_star, RGroup 1 (RPlus RDot), REol]]"

definition cleanTopic :: "string \<Rightarrow> string" where
  \<comment> \<open>\<open>match[1].replace(/[^\w\s-]/g, '').trim()\<close>, then \<open>.replace(/\s+/g, '_')\<close>, then
      \<open>.slice(0, 50)\<close>\<close>
  "cleanTopic m1 =
     (let topic = trim (replace_all noflags (RNotClass [CWord, CSpace, CChar CHR ''-'']) [] None m1);
          topic = replace_all noflags sp_plus ''_'' None topic
      in take 50 topic)"

fun topicLoop :: "regex list \<Rightarrow> string \<Rightarrow> string option" where
  "topicLoop [] doc = None"
| "topicLoop (pattern # ps) doc =
     (case search mflag pattern None doc of
        Some (b, e) \<Rightarrow> Some (cleanTopic (case matchGroup e 1 of Some m1 \<Rightarrow> m1 | None \<Rightarrow> []))
      | None \<Rightarrow> topicLoop ps doc)"

definition extensionPattern :: regex where
  \<comment> \<open>\<open>/\.[^/.]+$/\<close>\<close>
  "extensionPattern =
     seqs [RChar CHR ''.'', RPlus (RNotClass [CChar CHR ''/'', CChar CHR ''.'']), REol]"

definition generateTopicName :: "string \<Rightarrow> string \<Rightarrow> string" where
  "generateTopicName fileName doc =
     (case topicLoop titlePatterns doc of
        Some topic \<Rightarrow> topic
      | None \<Rightarrow>
          (let baseName = replace_first noflags extensionPattern [] fileName
           in if baseName = [] then ''unknown_topic'' else baseName))"

subsection \<open>processFile\<close>

record File =
  name :: string
  contents :: "string option"

definition readFileAsText :: "File \<Rightarrow> string + string" where
  \<comment> \<open>the promise: rejected with \<open>Error('Failed to read file')\<close> (\<open>Inl\<close> its message) when the
      reader fails, resolved with the text otherwise\<close>
  "readFileAsText file =
     (case contents file of None \<Rightarrow> Inl ''Failed to read file'' | Some t \<Rightarrow> Inr t)"

record ExtractedFile =
  fileName :: string
  fileContent :: string
  fileLanguage :: string
  lines :: nat
  fileHash :: string
  extension :: string

record CodeFileInfo =
  infoFileName :: string
  infoLanguage :: string
  infoLines :: nat
  infoHash :: string

record Metadata =
  sourceFile :: string
  metaTopic :: string
  totalBlocks :: nat
  codeFiles :: "CodeFileInfo list"
  processedAt :: string

record ExtractionResult =
  topic :: string
  blocksExtracted :: nat
  files :: "ExtractedFile list"
  metadata :: Metadata

datatype ProcessResult =
    Failed string
  | NoBlocks string
  | Extracted ExtractionResult

definition makeFile :: "nat \<Rightarrow> CodeBlock \<Rightarrow> ExtractedFile" where
  \<comment> \<open>the object pushed for \<open>codeBlocks[i]\<close>\<close>
  "makeFile i codeBlock =
     (let index = i + 1;
          fileName =
            (if language codeBlock \<noteq> [] \<and> language codeBlock \<noteq> ''txt'' then
               ''code_'' @ padStart 2 CHR ''0'' (toDecimal index) @ ''_'' @ language codeBlock @
               ''_'' @ hash codeBlock @ getFileExtension codeBlock
             else
               ''code_'' @ padStart 2 CHR ''0'' (toDecimal index) @ ''_'' @ hash codeBlock @
               getFileExtension codeBlock)
      in \<lparr>fileName = fileName,
          fileContent = content codeBlock,
          fileLanguage = language codeBlock,
          lines = length (split_nl (content codeBlock)),
          fileHash = hash codeBlock,
          extension = getFileExtension codeBlock\<rparr>)"

fun fileLoop ::
  "CodeBlock list \<Rightarrow> nat \<Rightarrow> ExtractedFile list \<Rightarrow> Stats \<Rightarrow> ExtractedFile list \<times> Stats" where
  "fileLoop [] i extractedFiles stats = (extractedFiles, stats)"
| "fileLoop (codeBlock # bs) i extractedFiles stats =
     fileLoop bs (i + 1) (extractedFiles @ [makeFile i codeBlock])
       (stats\<lparr>languagesDetected := set_add (languagesDetected stats) (language codeBlock)\<rparr>)"

definition fileInfo :: "ExtractedFile \<Rightarrow> CodeFileInfo" where
  "fileInfo f = \<lparr>infoFileName = fileName f, infoLanguage = fileLanguage f, infoLines = lines f,
                 infoHash = fileHash f\<rparr>"

definition processFile :: "Stats \<Rightarrow> string \<Rightarrow> File \<Rightarrow> ProcessResult \<times> Stats" where
  \<comment> \<open>\<open>this.stats\<close> is passed in and returned; \<open>now\<close> is \<open>new Date().toISOString()\<close>\<close>
  "processFile stats now file =
     (case readFileAsText file of
        Inl message \<Rightarrow> (Failed (''Failed to process file: '' @ message), stats)
      | Inr doc \<Rightarrow>
          (let codeBlocks = extractCodeBlocks doc in
           if length codeBlocks = 0 then (NoBlocks ''No code blocks found'', stats)
           else
             (let topicName = generateTopicName (name file) doc;
                  (extractedFiles, stats1) = fileLoop codeBlocks 0 [] stats;
                  metadata = \<lparr>sourceFile = name file, metaTopic = topicName,
                              totalBlocks = length codeBlocks,
                              codeFiles = map fileInfo extractedFiles, processedAt = now\<rparr>;
                  stats2 = stats1\<lparr>filesProcessed := filesProcessed stats1 + 1\<rparr>;
                  stats3 = stats2\<lparr>codeBlocksFound := codeBlocksFound stats2 + length codeBlocks\<rparr>;
                  stats4 = stats3\<lparr>topicsCreated := set_add (topicsCreated stats3) topicName\<rparr>
              in (Extracted \<lparr>topic = topicName, blocksExtracted = length codeBlocks,
                              files = extractedFiles, metadata = metadata\<rparr>, stats4))))"

section \<open>Notions used in the statements\<close>

subsection \<open>Parts of the extractor's output\<close>

definition retainedIndented :: "string \<Rightarrow> CodeBlock list" where
  \<comment> \<open>what \<open>extractCodeBlocks\<close> returns after the fenced blocks\<close>
  "retainedIndented doc = drop (length (extractMarkdownCodeBlocks doc)) (extractCodeBlocks doc)"

definition gap :: "CodeBlock \<Rightarrow> CodeBlock \<Rightarrow> bool" where
  "gap a b = (startLine a + 5 \<le> startLine b)"

subsection \<open>Runs of indented lines\<close>

text \<open>
  The runs of a document, described without the scanner's loop: a run starts at a line that
  is indented by four spaces or a tab, and goes on for as long as the lines are indented or
  blank. Each run is paired with the index of its first line.
\<close>

definition startsRun :: "string \<Rightarrow> bool" where
  "startsRun line = test noflags indentPattern line"

definition continuesRun :: "string \<Rightarrow> bool" where
  "continuesRun line = (test noflags indentPattern line \<or> trim line = [])"

function indentedRuns :: "string list \<Rightarrow> nat \<Rightarrow> (nat \<times> string list) list" where
  "indentedRuns [] i = []"
| "indentedRuns (l # ls) i =
     (if startsRun l then
        (i, l # takeWhile continuesRun ls) #
        indentedRuns (dropWhile continuesRun ls) (i + 1 + length (takeWhile continuesRun ls))
      else indentedRuns ls (i + 1))"
  by pat_completeness auto
termination
  by (relation "measure (\<lambda>(ls, i). length ls)") (auto simp: length_dropWhile_le le_imp_less_Suc)

definition keepRun :: "string list \<Rightarrow> bool" where
  \<comment> \<open>more than 3 lines, more than 50 characters after trimming, at least 2 of the 9
      signatures of \<open>looksLikeCode\<close>\<close>
  "keepRun run =
     (length run > 3 \<and> length (trim (join_nl run)) > 50 \<and>
      2 \<le> length (filter (\<lambda>p. test noflags p (trim (join_nl run))) codePatterns))"

subsection \<open>The text of a topic\<close>

definition keptInTopic :: "char \<Rightarrow> bool" where
  "keptInTopic c = (is_word_char c \<or> is_space_char c \<or> c = CHR ''-'')"

function underscores :: "string \<Rightarrow> string" where
  \<comment> \<open>every maximal run of whitespace becomes one underscore\<close>
  "underscores [] = []"
| "underscores (c # cs) =
     (if is_space_char c then CHR ''_'' # underscores (dropWhile is_space_char cs)
      else c # underscores cs)"
  by pat_completeness auto
termination
  by (relation "measure length") (auto simp: length_dropWhile_le le_imp_less_Suc)

definition titleText :: "regex \<Rightarrow> string \<Rightarrow> string" where
  \<comment> \<open>\<open>match[1]\<close> of the first match of a title pattern\<close>
  "titleText r doc =
     (case search mflag r None doc of
        Some (b, e) \<Rightarrow> (case matchGroup e 1 of Some m1 \<Rightarrow> m1 | None \<Rightarrow> [])
      | None \<Rightarrow> [])"

subsection \<open>Captures\<close>

fun groups_of :: "regex \<Rightarrow> nat set" where
  "groups_of (RSeq r1 r2) = groups_of r1 \<union> groups_of r2"
| "groups_of (RAlt r1 r2) = groups_of r1 \<union> groups_of r2"
| "groups_of (RStar r) = groups_of r"
| "groups_of (RLazyStar r) = groups_of r"
| "groups_of (RPlus r) = groups_of r"
| "groups_of (ROpt r) = groups_of r"
| "groups_of (RGroup k r) = insert k (groups_of r)"
| "groups_of r = {}"

definition extends :: "nat set \<Rightarrow> mstate \<Rightarrow> mstate \<Rightarrow> bool" where
  \<comment> \<open>\<open>e\<close> has the captures of \<open>st\<close> and, in front of them, captures of groups in \<open>G\<close>\<close>
  "extends G st e = (\<exists>new. caps e = new @ caps st \<and> fst ` set new \<subseteq> G)"

definition fenceTail :: regex where
  "fenceTail = seqs [RGroup 2 (RLazyStar (RClass [CSpace, CNotSpace])), RChar nl, lit ''```'']"

subsection \<open>Sample documents\<close>

definition proseDoc :: string where
  "proseDoc = ''hello''"

definition proseFile :: File where
  "proseFile = \<lparr>name = ''notes.md'', contents = Some proseDoc\<rparr>"

definition fencedDoc :: string where
  "fencedDoc = ''```js\<newline>def f(x): return x + 1 # py\<newline>```''"

definition fencedFile :: File where
  "fencedFile = \<lparr>name = ''notes.md'', contents = Some fencedDoc\<rparr>"

text \<open>
  Lines 1 to 4 are an indented run, line 5 ends it, line 6 opens a fence tagged \<open>py\<close> whose
  four content lines are indented as well, line 11 closes the fence.
\<close>

definition sampleDoc :: string where
  "sampleDoc =
     ''    def f(x):\<newline>    y = x + 1\<newline>    z = y * 2\<newline>    return z + y + x\<newline>end\<newline>```py\<newline>    def a(x):\<newline>    b = g(2)\<newline>    c = h(3)\<newline>    return k(4) + 123456\<newline>```''"

definition fencedSample :: CodeBlock where
  "fencedSample =
     \<lparr>content = ''def a(x):\<newline>    b = g(2)\<newline>    c = h(3)\<newline>    return k(4) + 123456'',
      language = ''py'', startLine = 6, hash = ''7113819c''\<rparr>"

definition indentedSample1 :: CodeBlock where
  "indentedSample1 =
     \<lparr>content = ''def f(x):\<newline>    y = x + 1\<newline>    z = y * 2\<newline>    return z + y + x'',
      language = ''python'', startLine = 0, hash = ''47f8ebb3''\<rparr>"

definition indentedSample2 :: CodeBlock where
  "indentedSample2 =
     \<lparr>content = ''def a(x):\<newline>    b = g(2)\<newline>    c = h(3)\<newline>    return k(4) + 123456'',
      language = ''python'', startLine = 6, hash = ''7113819c''\<rparr>"

definition snippet :: string where
  "snippet = ''    a = f(1);\<newline>    b = g(2);\<newline>    c = h(3)''"

definition hyphenDoc :: string where
  "hyphenDoc = ''# Set-up guide''"

definition headingDoc :: string where
  "headingDoc = ''# Database Setup Discussion\<newline>Here is the code.''"

section \<open>Properties of the matcher\<close>

subsection \<open>Captures are only added, and only for the groups of the pattern\<close>

lemma extends_refl: "extends G st st"
  by (simp add: extends_def)

lemma extends_trans: "extends G a b \<Longrightarrow> extends G b c \<Longrightarrow> extends G a c"
  by (fastforce simp: extends_def)

lemma extends_mono: "extends G a b \<Longrightarrow> G \<subseteq> H \<Longrightarrow> extends H a b"
  by (auto simp: extends_def)

lemma extends_group: "extends G st e \<Longrightarrow> k \<notin> G \<Longrightarrow> matchGroup e k = matchGroup st k"
proof -
  assume "extends G st e" and k: "k \<notin> G"
  then obtain new where n: "caps e = new @ caps st" "fst ` set new \<subseteq> G"
    by (auto simp: extends_def)
  from n(2) k have "map_of new k = None" by (auto simp: map_of_eq_None_iff)
  with n(1) show ?thesis by (simp add: matchGroup_def map_add_def)
qed

lemma step_char_extends: "e \<in> set (step_char P st) \<Longrightarrow> extends G st e"
  by (cases "(P, st)" rule: step_char.cases) (auto simp: extends_def split: if_splits)

lemma star_greedy_extends:
  assumes m: "\<forall>st x. x \<in> set (m st) \<longrightarrow> extends G st x"
  shows "e \<in> set (star_greedy m st) \<Longrightarrow> extends G st e"
  using m
proof (induction m st arbitrary: e rule: star_greedy.induct)
  case (1 m' st)
  note m' = "1.prems"(2)
  from "1.prems"(1) consider "e = st"
    | x where "x \<in> set (m' st)" "advanced st x" "e \<in> set (star_greedy m' x)"
    by (subst (asm) star_greedy.simps) auto
  then show ?case
  proof cases
    case 1
    then show ?thesis by (simp add: extends_refl)
  next
    case 2
    from 2(1,2) have "x \<in> set (filter (advanced st) (m' st))" by simp
    from "1.IH" [OF this 2(3) m'] have "extends G x e" .
    moreover from m' 2(1) have "extends G st x" by blast
    ultimately show ?thesis by (rule extends_trans [rotated])
  qed
qed

lemma star_lazy_extends:
  assumes m: "\<forall>st x. x \<in> set (m st) \<longrightarrow> extends G st x"
  shows "e \<in> set (star_lazy m st) \<Longrightarrow> extends G st e"
  using m
proof (induction m st arbitrary: e rule: star_lazy.induct)
  case (1 m' st)
  note m' = "1.prems"(2)
  from "1.prems"(1) consider "e = st"
    | x where "x \<in> set (m' st)" "advanced st x" "e \<in> set (star_lazy m' x)"
    by (subst (asm) star_lazy.simps) auto
  then show ?case
  proof cases
    case 1
    then show ?thesis by (simp add: extends_refl)
  next
    case 2
    from 2(1,2) have "x \<in> set (filter (advanced st) (m' st))" by simp
    from "1.IH" [OF this 2(3) m'] have "extends G x e" .
    moreover from m' 2(1) have "extends G st x" by blast
    ultimately show ?thesis by (rule extends_trans [rotated])
  qed
qed

lemma set_cap_extends: "extends G st x \<Longrightarrow> extends (insert k G) st (set_cap k st x)"
proof -
  assume "extends G st x"
  then obtain new where n: "caps x = new @ caps st" "fst ` set new \<subseteq> G"
    by (auto simp: extends_def)
  let ?c = "(k, take (length (rest st) - length (rest x)) (rest st))"
  from n have "caps (set_cap k st x) = (?c # new) @ caps st \<and> fst ` set (?c # new) \<subseteq> insert k G"
    by (auto simp: set_cap_def)
  then show ?thesis unfolding extends_def by blast
qed

lemma matchR_extends: "e \<in> set (matchR f r st) \<Longrightarrow> extends (groups_of r) st e"
proof (induction r arbitrary: st e)
  case (RSeq r1 r2)
  then obtain x where x: "x \<in> set (matchR f r1 st)" "e \<in> set (matchR f r2 x)" by auto
  from RSeq.IH(1) [OF x(1)] have "extends (groups_of (RSeq r1 r2)) st x"
    by (rule extends_mono) simp
  moreover from RSeq.IH(2) [OF x(2)] have "extends (groups_of (RSeq r1 r2)) x e"
    by (rule extends_mono) simp
  ultimately show ?case by (rule extends_trans)
next
  case (RAlt r1 r2)
  then consider "e \<in> set (matchR f r1 st)" | "e \<in> set (matchR f r2 st)" by auto
  then show ?case
  proof cases
    case 1
    from RAlt.IH(1) [OF 1] show ?thesis by (rule extends_mono) simp
  next
    case 2
    from RAlt.IH(2) [OF 2] show ?thesis by (rule extends_mono) simp
  qed
next
  case (RStar r)
  from RStar.IH have "\<forall>st x. x \<in> set (matchR f r st) \<longrightarrow> extends (groups_of r) st x" by blast
  from star_greedy_extends [OF this] RStar.prems show ?case by simp
next
  case (RLazyStar r)
  from RLazyStar.IH have "\<forall>st x. x \<in> set (matchR f r st) \<longrightarrow> extends (groups_of r) st x"
    by blast
  from star_lazy_extends [OF this] RLazyStar.prems show ?case by simp
next
  case (RPlus r)
  from RPlus.IH have m: "\<forall>st x. x \<in> set (matchR f r st) \<longrightarrow> extends (groups_of r) st x"
    by blast
  from RPlus.prems obtain x where
    x: "x \<in> set (matchR f r st)" "e \<in> set (star_greedy (matchR f r) x)" by auto
  from star_greedy_extends [OF m x(2)] RPlus.IH [OF x(1)] show ?case
    by (simp add: extends_trans)
next
  case (ROpt r)
  then consider "e = st" | "e \<in> set (matchR f r st)" by auto
  then show ?case
  proof cases
    case 1
    then show ?thesis by (simp add: extends_refl)
  next
    case 2
    from ROpt.IH [OF 2] show ?thesis by simp
  qed
next
  case (RGroup k r)
  then obtain x where x: "x \<in> set (matchR f r st)" "e = set_cap k st x" by auto
  from RGroup.IH [OF x(1)] x(2) show ?case by (simp add: set_cap_extends)
qed (auto simp: extends_refl dest: step_char_extends split: if_splits)

subsection \<open>A match consumes a piece of the text\<close>

lemma step_char_suffix: "e \<in> set (step_char P st) \<Longrightarrow> suffix (rest e) (rest st)"
  by (cases "(P, st)" rule: step_char.cases) (auto simp: suffix_Cons split: if_splits)

lemma star_greedy_suffix:
  assumes m: "\<forall>st x. x \<in> set (m st) \<longrightarrow> suffix (rest x) (rest st)"
  shows "e \<in> set (star_greedy m st) \<Longrightarrow> suffix (rest e) (rest st)"
  using m
proof (induction m st arbitrary: e rule: star_greedy.induct)
  case (1 m' st)
  note m' = "1.prems"(2)
  from "1.prems"(1) consider "e = st"
    | x where "x \<in> set (m' st)" "advanced st x" "e \<in> set (star_greedy m' x)"
    by (subst (asm) star_greedy.simps) auto
  then show ?case
  proof cases
    case 1
    then show ?thesis by simp
  next
    case 2
    from 2(1,2) have "x \<in> set (filter (advanced st) (m' st))" by simp
    from "1.IH" [OF this 2(3) m'] have "suffix (rest e) (rest x)" .
    moreover from m' 2(1) have "suffix (rest x) (rest st)" by blast
    ultimately show ?thesis by (rule suffix_order.trans)
  qed
qed

lemma star_lazy_suffix:
  assumes m: "\<forall>st x. x \<in> set (m st) \<longrightarrow> suffix (rest x) (rest st)"
  shows "e \<in> set (star_lazy m st) \<Longrightarrow> suffix (rest e) (rest st)"
  using m
proof (induction m st arbitrary: e rule: star_lazy.induct)
  case (1 m' st)
  note m' = "1.prems"(2)
  from "1.prems"(1) consider "e = st"
    | x where "x \<in> set (m' st)" "advanced st x" "e \<in> set (star_lazy m' x)"
    by (subst (asm) star_lazy.simps) auto
  then show ?case
  proof cases
    case 1
    then show ?thesis by simp
  next
    case 2
    from 2(1,2) have "x \<in> set (filter (advanced st) (m' st))" by simp
    from "1.IH" [OF this 2(3) m'] have "suffix (rest e) (rest x)" .
    moreover from m' 2(1) have "suffix (rest x) (rest st)" by blast
    ultimately show ?thesis by (rule suffix_order.trans)
  qed
qed

lemma matchR_suffix: "e \<in> set (matchR f r st) \<Longrightarrow> suffix (rest e) (rest st)"
proof (induction r arbitrary: st e)
  case (RSeq r1 r2)
  then obtain x where x: "x \<in> set (matchR f r1 st)" "e \<in> set (matchR f r2 x)" by auto
  from RSeq.IH(2) [OF x(2)] RSeq.IH(1) [OF x(1)] show ?case by (rule suffix_order.trans)
next
  case (RStar r)
  from RStar.IH have "\<forall>st x. x \<in> set (matchR f r st) \<longrightarrow> suffix (rest x) (rest st)" by blast
  from star_greedy_suffix [OF this] RStar.prems show ?case by simp
next
  case (RLazyStar r)
  from RLazyStar.IH have "\<forall>st x. x \<in> set (matchR f r st) \<longrightarrow> suffix (rest x) (rest st)" by blast
  from star_lazy_suffix [OF this] RLazyStar.prems show ?case by simp
next
  case (RPlus r)
  from RPlus.IH have m: "\<forall>st x. x \<in> set (matchR f r st) \<longrightarrow> suffix (rest x) (rest st)" by blast
  from RPlus.prems obtain x where
    x: "x \<in> set (matchR f r st)" "e \<in> set (star_greedy (matchR f r) x)" by auto
  from star_greedy_suffix [OF m x(2)] RPlus.IH [OF x(1)] show ?case
    by (rule suffix_order.trans)
next
  case (RGroup k r)
  then obtain x where x: "x \<in> set (matchR f r st)" "e = set_cap k st x" by auto
  from RGroup.IH [OF x(1)] x(2) show ?case by (simp add: set_cap_def)
qed (auto dest: step_char_suffix split: if_splits)

lemma search_suffix:
  "search f r p s = Some (b, e) \<Longrightarrow>
     suffix (rest b) s \<and> caps b = [] \<and> e \<in> set (matchR f r b)"
proof (induction s arbitrary: p)
  case Nil
  then show ?case by (auto split: list.splits)
next
  case (Cons c s)
  show ?case
  proof (cases "matchR f r (MState p (c # s) [])")
    case Nil
    with Cons.prems have "search f r (Some c) s = Some (b, e)" by simp
    from Cons.IH [OF this] show ?thesis by (simp add: suffix_Cons)
  next
    case (Cons e' es)
    with Cons.prems show ?thesis by auto
  qed
qed

section \<open>Properties of the classifier\<close>

lemma anyPatternMatches_iff:
  "anyPatternMatches ps c = list_ex (\<lambda>p. test (fst p) (snd p) c) ps"
  by (induction ps) simp_all

lemma detectLoop_find:
  "detectLoop es c =
     (case find (\<lambda>e. list_ex (\<lambda>p. test (fst p) (snd p) c) (snd e)) es of
        Some e \<Rightarrow> fst e | None \<Rightarrow> ''txt'')"
  by (induction es) (simp_all add: anyPatternMatches_iff)

lemma patterns_order:
  "map fst patterns =
     [''python'', ''javascript'', ''java'', ''c'', ''cpp'', ''html'', ''css'', ''sql'', ''bash'',
      ''dockerfile'', ''json'', ''yaml'', ''xml'']"
  by (simp add: patterns_def)

lemma txt_not_candidate: "e \<in> set patterns \<Longrightarrow> fst e \<noteq> ''txt''"
proof -
  assume "e \<in> set patterns"
  then have "fst e \<in> set (map fst patterns)" by simp
  then show ?thesis unfolding patterns_order by auto
qed

text \<open>
  C3. The classifier goes through the candidates in the order python, javascript, java, c,
  cpp, html, css, sql, bash, dockerfile, json, yaml, xml and returns the label of the first
  one that has a matching signature; it returns \<open>txt\<close> exactly when no signature of any
  candidate matches.
\<close>

theorem detectLanguage_first_candidate:
  "map fst patterns =
     [''python'', ''javascript'', ''java'', ''c'', ''cpp'', ''html'', ''css'', ''sql'', ''bash'',
      ''dockerfile'', ''json'', ''yaml'', ''xml''] \<and>
   detectLanguage c =
     (case find (\<lambda>e. list_ex (\<lambda>p. test (fst p) (snd p) c) (snd e)) patterns of
        Some e \<Rightarrow> fst e | None \<Rightarrow> ''txt'') \<and>
   (detectLanguage c = ''txt'' \<longleftrightarrow>
      (\<forall>e \<in> set patterns. \<forall>p \<in> set (snd e). \<not> test (fst p) (snd p) c))"
proof (intro conjI)
  show "map fst patterns =
     [''python'', ''javascript'', ''java'', ''c'', ''cpp'', ''html'', ''css'', ''sql'', ''bash'',
      ''dockerfile'', ''json'', ''yaml'', ''xml'']"
    by (rule patterns_order)
  let ?hit = "\<lambda>e. list_ex (\<lambda>p. test (fst p) (snd p) c) (snd e)"
  show eq: "detectLanguage c = (case find ?hit patterns of Some e \<Rightarrow> fst e | None \<Rightarrow> ''txt'')"
    unfolding detectLanguage_def by (rule detectLoop_find)
  show "detectLanguage c = ''txt'' \<longleftrightarrow>
          (\<forall>e \<in> set patterns. \<forall>p \<in> set (snd e). \<not> test (fst p) (snd p) c)"
  proof (cases "find ?hit patterns")
    case None
    then have "\<forall>e \<in> set patterns. \<not> ?hit e" by (auto simp: find_None_iff)
    with None eq show ?thesis by (auto simp: list_ex_iff)
  next
    case (Some e)
    then have e: "e \<in> set patterns" "?hit e" by (auto simp: find_Some_iff)
    from e(1) have "fst e \<noteq> ''txt''" by (rule txt_not_candidate)
    with Some eq have "detectLanguage c \<noteq> ''txt''" by simp
    moreover from e have "\<not> (\<forall>e \<in> set patterns. \<forall>p \<in> set (snd e). \<not> test (fst p) (snd p) c)"
      by (auto simp: list_ex_iff)
    ultimately show ?thesis by simp
  qed
qed

lemma classify_prose: "detectLanguage ''hello'' = ''txt''"
  by code_simp

lemma classify_mixed:
  "find (\<lambda>e. list_ex (\<lambda>p. test (fst p) (snd p) ''print(1); console.log(2)'') (snd e)) patterns
     = Some (hd patterns)"
  by code_simp

lemma classify_mixed_js:
  "list_ex (\<lambda>p. test (fst p) (snd p) ''print(1); console.log(2)'') (snd (patterns ! 1))"
  by code_simp

theorem detectLanguage_first_candidate_witness:
  "detectLanguage ''hello'' = ''txt'' \<and>
   \<not> (\<exists>e \<in> set patterns. \<exists>p \<in> set (snd e). test (fst p) (snd p) ''hello'') \<and>
   list_ex (\<lambda>p. test (fst p) (snd p) ''print(1); console.log(2)'') (snd (patterns ! 1)) \<and>
   detectLanguage ''print(1); console.log(2)'' = ''python''"
proof -
  from detectLanguage_first_candidate [of "''hello''"] classify_prose
  have "\<not> (\<exists>e \<in> set patterns. \<exists>p \<in> set (snd e). test (fst p) (snd p) ''hello'')"
    by simp
  moreover from detectLanguage_first_candidate [of "''print(1); console.log(2)''"] classify_mixed
  have "detectLanguage ''print(1); console.log(2)'' = fst (hd patterns)"
    by simp
  then have "detectLanguage ''print(1); console.log(2)'' = ''python''"
    by (simp add: patterns_def)
  ultimately show ?thesis using classify_prose classify_mixed_js by simp
qed

section \<open>Properties of the fenced scanner\<close>

lemma startLine_newCodeBlock [simp]: "startLine (newCodeBlock c l s) = s"
  by (simp add: newCodeBlock_def Let_def)

subsection \<open>The tag of a fence\<close>

lemma fencedPattern_unfold:
  "fencedPattern =
     RSeq (RChar CHR ''`'') (RSeq (RSeq (RChar CHR ''`'') (RSeq (RChar CHR ''`'') REps))
       (RSeq (ROpt (RGroup 1 w_plus)) (RSeq (RChar nl) fenceTail)))"
  by (simp add: fencedPattern_def fenceTail_def seqs_def lit_def)

lemma step_literal:
  "x \<in> set (step_char (char_eq noflags a) st) \<Longrightarrow> rest st = a # rest x \<and> caps x = caps st"
  by (cases "(char_eq noflags a, st)" rule: step_char.cases)
     (auto simp: char_eq_def noflags_def split: if_splits)

lemma fencedPattern_parts:
  assumes "e \<in> set (matchR noflags fencedPattern b)"
  shows "\<exists>st3 st4 st5. rest b = ''```'' @ rest st3 \<and> caps st3 = caps b \<and>
           st4 \<in> set (matchR noflags (ROpt (RGroup 1 w_plus)) st3) \<and>
           rest st4 = nl # rest st5 \<and> caps st5 = caps st4 \<and>
           e \<in> set (matchR noflags fenceTail st5)"
proof -
  from assms obtain st1 st2 st3 st4 st5 where
    s: "st1 \<in> set (step_char (char_eq noflags CHR ''`'') b)"
       "st2 \<in> set (step_char (char_eq noflags CHR ''`'') st1)"
       "st3 \<in> set (step_char (char_eq noflags CHR ''`'') st2)"
       "st4 \<in> set (matchR noflags (ROpt (RGroup 1 w_plus)) st3)"
       "st5 \<in> set (step_char (char_eq noflags nl) st4)"
       "e \<in> set (matchR noflags fenceTail st5)"
    unfolding fencedPattern_unfold by (auto simp del: matchR.simps(13))
  from s(1,2,3) [THEN step_literal] have "rest b = ''```'' @ rest st3" "caps st3 = caps b"
    by simp_all
  moreover from s(5) [THEN step_literal] have "rest st4 = nl # rest st5" "caps st5 = caps st4"
    by simp_all
  ultimately show ?thesis using s(4,6) by blast
qed

lemma fenceTail_group1: "e \<in> set (matchR noflags fenceTail st) \<Longrightarrow> matchGroup e 1 = matchGroup st 1"
proof -
  assume "e \<in> set (matchR noflags fenceTail st)"
  then have "extends (groups_of fenceTail) st e" by (rule matchR_extends)
  moreover have "1 \<notin> groups_of fenceTail"
    by (simp add: fenceTail_def seqs_def lit_def)
  ultimately show ?thesis by (rule extends_group)
qed

lemma w_plus_consumes:
  "x \<in> set (matchR f w_plus st) \<Longrightarrow> length (rest x) < length (rest st)"
proof -
  assume "x \<in> set (matchR f w_plus st)"
  then obtain y where y: "y \<in> set (step_char (class_has f [CWord]) st)"
    "x \<in> set (star_greedy (matchR f (RClass [CWord])) y)" by auto
  from y(1) have "Suc (length (rest y)) = length (rest st)" by (rule step_char_rest)
  with star_greedy_rest [OF y(2)] show ?thesis by simp
qed

text \<open>
  A match of the fence pattern either has no first group, and then the opening fence is
  followed by the line break at once, or its first group is the non-empty text between the
  opening fence and the line break.
\<close>

lemma fencedPattern_tag:
  assumes "e \<in> set (matchR noflags fencedPattern b)" and "caps b = []"
  shows "case matchGroup e 1 of
           None \<Rightarrow> prefix (''```'' @ [nl]) (rest b)
         | Some tag \<Rightarrow> tag \<noteq> [] \<and> prefix (''```'' @ tag @ [nl]) (rest b)"
proof -
  from fencedPattern_parts [OF assms(1)] obtain st3 st4 st5 where
    s: "rest b = ''```'' @ rest st3" "caps st3 = caps b"
       "st4 \<in> set (matchR noflags (ROpt (RGroup 1 w_plus)) st3)"
       "rest st4 = nl # rest st5" "caps st5 = caps st4"
       "e \<in> set (matchR noflags fenceTail st5)"
    by blast
  from s(6) have g: "matchGroup e 1 = matchGroup st5 1" by (rule fenceTail_group1)
  from s(3) consider "st4 = st3"
    | x where "x \<in> set (matchR noflags w_plus st3)" "st4 = set_cap 1 st3 x"
    by auto
  then show ?thesis
  proof cases
    case 1
    with s(2,5) assms(2) have "matchGroup st5 1 = None" by (simp add: matchGroup_def)
    with g s(1,4) 1 show ?thesis by (simp add: prefix_def)
  next
    case 2
    let ?tag = "take (length (rest st3) - length (rest x)) (rest st3)"
    from 2(2) s(5) have "matchGroup st5 1 = Some ?tag" by (simp add: matchGroup_def set_cap_def)
    moreover from 2(1) have lt: "length (rest x) < length (rest st3)" by (rule w_plus_consumes)
    then have "?tag \<noteq> []" by auto
    moreover from 2(1) have "suffix (rest x) (rest st3)" by (rule matchR_suffix)
    then have "rest st3 = ?tag @ rest x" by (auto simp: suffix_def)
    with 2(2) s(1,4) have "rest b = ''```'' @ ?tag @ nl # rest st5"
      by (simp add: set_cap_def)
    then have "prefix (''```'' @ ?tag @ [nl]) (rest b)" by (simp add: prefix_def)
    ultimately show ?thesis using g by simp
  qed
qed

lemma fencedLoop_blocks:
  "blk \<in> set (fencedLoop doc p s) \<Longrightarrow>
     \<exists>p' s' b e. suffix s' s \<and> search noflags fencedPattern p' s' = Some (b, e) \<and>
                 blk \<in> set (fencedBlock doc b e)"
proof (induction doc p s rule: fencedLoop.induct)
  case (1 doc p s)
  show ?case
  proof (cases "search noflags fencedPattern p s")
    case None
    with "1.prems" show ?thesis by (subst (asm) fencedLoop.simps) simp
  next
    case (Some m)
    obtain b e where m: "m = (b, e)" by (cases m)
    from "1.prems" Some m
    consider "blk \<in> set (fencedBlock doc b e)" | "blk \<in> set (fencedLoop doc (prev e) (rest e))"
      by (subst (asm) fencedLoop.simps) auto
    then show ?thesis
    proof cases
      case 1
      with Some m show ?thesis by blast
    next
      case 2
      from "1.IH" [OF Some m [symmetric] 2] obtain p' s' b' e' where
        n: "suffix s' (rest e)" "search noflags fencedPattern p' s' = Some (b', e')"
           "blk \<in> set (fencedBlock doc b' e')"
        by blast
      from Some m have "suffix (rest b) s" "e \<in> set (matchR noflags fencedPattern b)"
        using search_suffix [of noflags fencedPattern p s b e] by simp_all
      from this(2) have "suffix (rest e) (rest b)" by (rule matchR_suffix)
      with n(1) \<open>suffix (rest b) s\<close> have "suffix s' s"
        by (meson suffix_order.trans)
      with n(2,3) show ?thesis by blast
    qed
  qed
qed

lemma fencedBlock_language:
  assumes "blk \<in> set (fencedBlock doc b e)"
  shows "case matchGroup e 1 of
           None \<Rightarrow> language blk = detectLanguage (content blk)
         | Some tag \<Rightarrow> tag \<noteq> [] \<longrightarrow> language blk = tag"
  using assms
  by (auto simp: fencedBlock_def newCodeBlock_def Let_def split: if_splits option.splits)

lemma fencedDoc_fenced:
  "extractMarkdownCodeBlocks fencedDoc =
     [\<lparr>content = ''def f(x): return x + 1 # py'', language = ''js'', startLine = 1,
       hash = ''773a97ce''\<rparr>]"
  by code_simp

lemma fencedBlock_classified: "detectLanguage ''def f(x): return x + 1 # py'' = ''python''"
  by code_simp

text \<open>
  C6. Every block of the fenced scanner comes from a match of the fence pattern in the
  document. When the match has a tag (the first group: the non-empty word between the opening
  fence and the line break), the block's language is that tag, whatever the classifier
  would say about the content; when it has none, the language is the classifier's answer
  for the block's content.
\<close>

theorem tagged_fence_keeps_tag:
  assumes "blk \<in> set (extractMarkdownCodeBlocks doc)"
  shows "\<exists>p s b e. suffix s doc \<and> search noflags fencedPattern p s = Some (b, e) \<and>
           blk \<in> set (fencedBlock doc b e) \<and>
           (case matchGroup e 1 of
              Some tag \<Rightarrow> tag \<noteq> [] \<and> prefix (''```'' @ tag @ [nl]) (rest b) \<and> language blk = tag
            | None \<Rightarrow> prefix (''```'' @ [nl]) (rest b) \<and>
                      language blk = detectLanguage (content blk))"
proof -
  from assms have "blk \<in> set (fencedLoop doc None doc)"
    by (simp add: extractMarkdownCodeBlocks_def)
  from fencedLoop_blocks [OF this] obtain p s b e where
    m: "suffix s doc" "search noflags fencedPattern p s = Some (b, e)"
       "blk \<in> set (fencedBlock doc b e)"
    by blast
  from search_suffix [OF m(2)] have "caps b = []" "e \<in> set (matchR noflags fencedPattern b)"
    by simp_all
  from fencedPattern_tag [OF this(2,1)] fencedBlock_language [OF m(3)]
  have "case matchGroup e 1 of
          Some tag \<Rightarrow> tag \<noteq> [] \<and> prefix (''```'' @ tag @ [nl]) (rest b) \<and> language blk = tag
        | None \<Rightarrow> prefix (''```'' @ [nl]) (rest b) \<and> language blk = detectLanguage (content blk)"
    by (auto split: option.splits)
  with m show ?thesis by blast
qed

theorem tagged_fence_keeps_tag_witness:
  "\<exists>blk p s b e. extractMarkdownCodeBlocks fencedDoc = [blk] \<and>
     search noflags fencedPattern p s = Some (b, e) \<and> suffix s fencedDoc \<and>
     matchGroup e 1 = Some ''js'' \<and> language blk = ''js'' \<and>
     detectLanguage (content blk) = ''python''"
proof -
  let ?blk = "\<lparr>content = ''def f(x): return x + 1 # py'', language = ''js'', startLine = 1,
                hash = ''773a97ce''\<rparr>"
  have "?blk \<in> set (extractMarkdownCodeBlocks fencedDoc)"
    by (simp add: fencedDoc_fenced)
  from tagged_fence_keeps_tag [OF this] obtain p s b e where
    m: "suffix s fencedDoc" "search noflags fencedPattern p s = Some (b, e)"
       "case matchGroup e 1 of
          Some tag \<Rightarrow> tag \<noteq> [] \<and> prefix (''```'' @ tag @ [nl]) (rest b) \<and> language ?blk = tag
        | None \<Rightarrow> prefix (''```'' @ [nl]) (rest b) \<and>
                  language ?blk = detectLanguage (content ?blk)"
    by blast
  have c: "detectLanguage (content ?blk) = ''python''"
    by (simp add: fencedBlock_classified)
  with m(3) have "matchGroup e 1 = Some ''js''"
    by (cases "matchGroup e 1") auto
  with m(1,2) c fencedDoc_fenced show ?thesis by auto
qed

subsection \<open>Fenced blocks come in the order of their lines\<close>

lemma length_split_nl: "length (split_nl s) = Suc (length (filter (\<lambda>c. c = nl) s))"
proof (induction s)
  case Nil
  show ?case by simp
next
  case (Cons c s)
  then show ?case by (cases "split_nl s") auto
qed

lemma lineOf_mono:
  assumes "j \<le> k"
  shows "length (split_nl (take j doc)) \<le> length (split_nl (take k doc))"
proof -
  from assms have "take k doc = take j doc @ take (k - j) (drop j doc)"
    by (metis le_add_diff_inverse take_add)
  then show ?thesis by (simp add: length_split_nl)
qed

lemma fencedBlock_startLine:
  "blk \<in> set (fencedBlock doc b e) \<Longrightarrow>
     startLine blk = length (split_nl (take (length doc - length (rest b)) doc))"
  by (auto simp: fencedBlock_def Let_def split: if_splits)

lemma fencedLoop_sorted:
  "sorted (map startLine (fencedLoop doc p s)) \<and>
   (\<forall>blk \<in> set (fencedLoop doc p s).
      length (split_nl (take (length doc - length s) doc)) \<le> startLine blk)"
proof (induction doc p s rule: fencedLoop.induct)
  case (1 doc p s)
  show ?case
  proof (cases "search noflags fencedPattern p s")
    case None
    then show ?thesis by (subst (1 2) fencedLoop.simps) simp
  next
    case (Some m)
    obtain b e where m: "m = (b, e)" by (cases m)
    let ?line = "\<lambda>k. length (split_nl (take k doc))"
    from Some m search_bounds [of noflags fencedPattern p s b e]
    have bs: "length (rest b) \<le> length s" and e: "e \<in> set (matchR noflags fencedPattern b)"
      by simp_all
    from e have eb: "length (rest e) \<le> length (rest b)" by (rule matchR_rest)
    from "1.IH" [OF Some m [symmetric]]
    have ih: "sorted (map startLine (fencedLoop doc (prev e) (rest e)))"
      "\<forall>blk \<in> set (fencedLoop doc (prev e) (rest e)).
         ?line (length doc - length (rest e)) \<le> startLine blk"
      by simp_all
    have here: "\<forall>blk \<in> set (fencedBlock doc b e). startLine blk = ?line (length doc - length (rest b))"
      by (simp add: fencedBlock_startLine)
    have one: "length (fencedBlock doc b e) \<le> 1"
      by (simp add: fencedBlock_def Let_def)
    have step1: "?line (length doc - length s) \<le> ?line (length doc - length (rest b))"
      using bs by (intro lineOf_mono) simp
    have step2: "?line (length doc - length (rest b)) \<le> ?line (length doc - length (rest e))"
      using eb by (intro lineOf_mono) simp
    have loop: "fencedLoop doc p s = fencedBlock doc b e @ fencedLoop doc (prev e) (rest e)"
      using Some m by (subst fencedLoop.simps) simp
    have "sorted (map startLine (fencedBlock doc b e))"
      using one by (cases "fencedBlock doc b e") auto
    with ih here step2 have "sorted (map startLine (fencedLoop doc p s))"
      unfolding loop by (fastforce simp: sorted_append)
    moreover from ih(2) here step1 step2
    have "\<forall>blk \<in> set (fencedLoop doc p s). ?line (length doc - length s) \<le> startLine blk"
      unfolding loop by fastforce
    ultimately show ?thesis by simp
  qed
qed

lemma extractMarkdownCodeBlocks_sorted: "sorted (map startLine (extractMarkdownCodeBlocks doc))"
  by (simp add: extractMarkdownCodeBlocks_def fencedLoop_sorted)

section \<open>Properties of the indented scanner\<close>

subsection \<open>Indented blocks lie at least five lines apart\<close>

lemma flushBlock_cases:
  "flushBlock cur start = [] \<or>
   (\<exists>b. flushBlock cur start = [b] \<and> startLine b = start \<and> 3 < length cur)"
  by (simp add: flushBlock_def Let_def)

lemma gap_iff: "gap a b \<longleftrightarrow> startLine a + 5 \<le> startLine b"
  by (simp add: gap_def)

lemma flushBlock_empty_run [simp]: "flushBlock [] start = []"
  by (simp add: flushBlock_def)

lemma indentedLoop_flush_gap:
  assumes "sorted_wrt gap blocks"
    and "\<forall>b \<in> set blocks. startLine b + 5 \<le> (if cur = [] then i else start)"
    and "cur \<noteq> [] \<longrightarrow> start + length cur = i"
  shows "sorted_wrt gap (blocks @ flushBlock cur start)"
proof (cases "cur = []")
  case True
  with assms(1) show ?thesis by simp
next
  case False
  with assms(2) have "\<forall>b \<in> set blocks. startLine b + 5 \<le> start" by simp
  with assms(1) flushBlock_cases [of cur start] show ?thesis
    by (auto simp: sorted_wrt_append gap_iff)
qed

lemma indentedLoop_gap:
  assumes "sorted_wrt gap blocks"
    and "\<forall>b \<in> set blocks. startLine b + 5 \<le> (if cur = [] then i else start)"
    and "cur \<noteq> [] \<longrightarrow> start + length cur = i"
  shows "sorted_wrt gap (indentedLoop ls i cur start blocks)"
  using assms
proof (induction ls arbitrary: i cur start blocks)
  case Nil
  have "sorted_wrt gap (blocks @ flushBlock cur start)"
    using Nil by (rule indentedLoop_flush_gap)
  then show ?case by simp
next
  case (Cons l ls)
  show ?case
  proof (cases "isIndented l cur")
    case True
    have "sorted_wrt gap (indentedLoop ls (i + 1) (cur @ [l]) (if length cur = 0 then i else start) blocks)"
    proof (rule Cons.IH)
      show "sorted_wrt gap blocks" by (rule Cons.prems(1))
      show "\<forall>b \<in> set blocks. startLine b + 5 \<le>
              (if cur @ [l] = [] then i + 1 else if length cur = 0 then i else start)"
        using Cons.prems(2) by auto
      show "cur @ [l] \<noteq> [] \<longrightarrow> (if length cur = 0 then i else start) + length (cur @ [l]) = i + 1"
        using Cons.prems(3) by auto
    qed
    with True show ?thesis by simp
  next
    case False
    have "sorted_wrt gap (indentedLoop ls (i + 1) [] start (blocks @ flushBlock cur start))"
    proof (rule Cons.IH)
      show "sorted_wrt gap (blocks @ flushBlock cur start)"
        using Cons.prems by (rule indentedLoop_flush_gap)
      have old: "\<forall>b \<in> set blocks. startLine b + 5 \<le> i + 1"
        using Cons.prems(2,3) by (cases "cur = []") auto
      have new: "\<forall>b \<in> set (flushBlock cur start). startLine b + 5 \<le> i + 1"
        using flushBlock_cases [of cur start] Cons.prems(3) by auto
      from old new
      show "\<forall>b \<in> set (blocks @ flushBlock cur start). startLine b + 5 \<le> (if [] = [] then i + 1 else start)"
        by auto
      show "[] \<noteq> [] \<longrightarrow> start + length [] = i + 1" by simp
    qed
    with False show ?thesis by simp
  qed
qed

lemma extractIndentedCodeBlocks_gap: "sorted_wrt gap (extractIndentedCodeBlocks doc)"
  unfolding extractIndentedCodeBlocks_def by (rule indentedLoop_gap) simp_all

subsection \<open>The scanner, run by run\<close>

lemma trim_empty_iff: "trim s = [] \<longleftrightarrow> (\<forall>c \<in> set s. is_space_char c)"
proof
  assume "trim s = []"
  then have "dropWhile is_space_char (rev (dropWhile is_space_char s)) = []"
    by (simp add: trim_def)
  then have a: "\<forall>c \<in> set (dropWhile is_space_char s). is_space_char c"
    by (simp add: dropWhile_eq_Nil_conv)
  have "dropWhile is_space_char s = []"
  proof (cases "dropWhile is_space_char s")
    case Nil
    then show ?thesis .
  next
    case (Cons c cs)
    then have "\<not> is_space_char c" using hd_dropWhile [of is_space_char s] by simp
    with a Cons show ?thesis by simp
  qed
  then show "\<forall>c \<in> set s. is_space_char c" by (simp add: dropWhile_eq_Nil_conv)
next
  assume "\<forall>c \<in> set s. is_space_char c"
  then have d: "dropWhile is_space_char s = []" by (simp add: dropWhile_eq_Nil_conv)
  show "trim s = []" unfolding trim_def d by simp
qed

lemma nl_is_space: "is_space_char nl"
  by (simp add: is_space_char_def nl_def code_def)

lemma set_join_nl: "set (join_nl ls) \<subseteq> insert nl (\<Union>l \<in> set ls. set l)"
  by (induction ls rule: join_nl.induct) auto

lemma blank_run_trim:
  assumes "\<not> list_ex (\<lambda>l. trim l \<noteq> []) run"
  shows "trim (join_nl run) = []"
proof -
  from assms have "\<forall>l \<in> set run. \<forall>c \<in> set l. is_space_char c"
    by (simp add: list_ex_iff trim_empty_iff)
  with set_join_nl [of run] nl_is_space have "\<forall>c \<in> set (join_nl run). is_space_char c"
    by auto
  then show ?thesis by (simp add: trim_empty_iff)
qed

lemma countMatches_filter: "countMatches ps c = length (filter (\<lambda>p. test noflags p c) ps)"
  by (induction ps) simp_all

lemma flushBlock_keepRun:
  "flushBlock run start =
     (if keepRun run then [newCodeBlock (trim (join_nl run)) None start] else [])"
proof (cases "length run > 0 \<and> list_ex (\<lambda>l. trim l \<noteq> []) run")
  case True
  then show ?thesis
    by (auto simp: flushBlock_def keepRun_def Let_def looksLikeCode_def countMatches_filter)
next
  case False
  then have "\<not> list_ex (\<lambda>l. trim l \<noteq> []) run" by auto
  then have "trim (join_nl run) = []" by (rule blank_run_trim)
  with False show ?thesis by (simp add: flushBlock_def keepRun_def)
qed

lemma isIndented_empty: "isIndented l [] = startsRun l"
  by (simp add: isIndented_def startsRun_def)

lemma isIndented_open: "cur \<noteq> [] \<Longrightarrow> isIndented l cur = continuesRun l"
  by (auto simp: isIndented_def continuesRun_def)

lemma startsRun_continues: "startsRun l \<Longrightarrow> continuesRun l"
  by (simp add: startsRun_def continuesRun_def)

lemma indentedLoop_runs:
  "indentedLoop ls i cur start blocks =
     (if cur = [] then blocks @ concat (map (\<lambda>(s, run). flushBlock run s) (indentedRuns ls i))
      else blocks @ flushBlock (cur @ takeWhile continuesRun ls) start @
           concat (map (\<lambda>(s, run). flushBlock run s)
             (indentedRuns (dropWhile continuesRun ls) (i + length (takeWhile continuesRun ls)))))"
proof (induction ls arbitrary: i cur start blocks)
  case Nil
  show ?case by simp
next
  case (Cons l ls)
  show ?case
  proof (cases "cur = []")
    case True
    show ?thesis
    proof (cases "startsRun l")
      case True
      with \<open>cur = []\<close> Cons.IH [of "i + 1" "[l]" i blocks] show ?thesis
        by (simp add: isIndented_empty)
    next
      case False
      with \<open>cur = []\<close> Cons.IH [of "i + 1" "[]" start blocks] show ?thesis
        by (simp add: isIndented_empty)
    qed
  next
    case False
    show ?thesis
    proof (cases "continuesRun l")
      case True
      with \<open>cur \<noteq> []\<close> Cons.IH [of "i + 1" "cur @ [l]" start blocks] show ?thesis
        by (simp add: isIndented_open)
    next
      case False
      then have "\<not> startsRun l" using startsRun_continues by blast
      with False \<open>cur \<noteq> []\<close> Cons.IH [of "i + 1" "[]" start "blocks @ flushBlock cur start"]
      show ?thesis
        by (simp add: isIndented_open)
    qed
  qed
qed

text \<open>
  C8. The indented scanner returns, run by run, one block for each run that has more than 3
  lines, more than 50 characters once trimmed, and at least 2 matching signatures among the
  9 of \<open>looksLikeCode\<close>, and nothing for any other run.
\<close>

theorem indented_run_kept_iff:
  "extractIndentedCodeBlocks doc =
     concat (map (\<lambda>(start, run).
                    if length run > 3 \<and> length (trim (join_nl run)) > 50 \<and>
                       2 \<le> length (filter (\<lambda>p. test noflags p (trim (join_nl run))) codePatterns)
                    then [newCodeBlock (trim (join_nl run)) None start] else [])
              (indentedRuns (split_nl doc) 0)) \<and>
   distinct codePatterns \<and> length codePatterns = 9"
proof -
  have "extractIndentedCodeBlocks doc =
          concat (map (\<lambda>(s, run). flushBlock run s) (indentedRuns (split_nl doc) 0))"
    by (simp add: extractIndentedCodeBlocks_def indentedLoop_runs)
  moreover have "distinct codePatterns \<and> length codePatterns = 9"
    by (simp add: codePatterns_def seqs_def lit_def)
  ultimately show ?thesis
    by (simp add: flushBlock_keepRun keepRun_def)
qed

lemma snippet_runs:
  "indentedRuns (split_nl snippet) 0 = [(0, [''    a = f(1);'', ''    b = g(2);'', ''    c = h(3)''])]"
  by code_simp

theorem indented_run_kept_iff_witness:
  "length snippet = 40 \<and>
   indentedRuns (split_nl snippet) 0 =
     [(0, [''    a = f(1);'', ''    b = g(2);'', ''    c = h(3)''])] \<and>
   extractIndentedCodeBlocks snippet = []"
proof -
  from indented_run_kept_iff [of snippet]
  have "extractIndentedCodeBlocks snippet = []"
    by (simp add: snippet_runs)
  moreover have "length snippet = 40" by (simp add: snippet_def)
  ultimately show ?thesis using snippet_runs by simp
qed

subsection \<open>Line numbers\<close>

lemma sampleDoc_fenced: "extractMarkdownCodeBlocks sampleDoc = [fencedSample]"
  by code_simp

lemma sampleDoc_indented:
  "extractIndentedCodeBlocks sampleDoc = [indentedSample1, indentedSample2]"
  by code_simp

text \<open>
  C2 fails on the code. The first line of the sample document starts an indented block, and
  the block's \<open>startLine\<close> is 0, not 1: the indented scanner records the index \<open>i\<close> of its
  loop, which counts from 0, where the fenced scanner counts lines from 1. The fence on line
  6 gets \<open>startLine\<close> 6, and so does the indented run that starts on line 7.
\<close>

theorem indented_startLine_counts_from_zero:
  "hd (split_nl sampleDoc) = ''    def f(x):'' \<and>
   map startLine (extractIndentedCodeBlocks sampleDoc) = [0, 6] \<and>
   map startLine (extractMarkdownCodeBlocks sampleDoc) = [6] \<and>
   split_nl sampleDoc ! 5 = ''```py'' \<and>
   split_nl sampleDoc ! 6 = ''    def a(x):''"
proof -
  have "split_nl sampleDoc =
     [''    def f(x):'', ''    y = x + 1'', ''    z = y * 2'', ''    return z + y + x'', ''end'',
      ''```py'', ''    def a(x):'', ''    b = g(2)'', ''    c = h(3)'',
      ''    return k(4) + 123456'', ''```'']"
    by code_simp
  then show ?thesis
    by (simp add: sampleDoc_indented sampleDoc_fenced indentedSample1_def indentedSample2_def
          fencedSample_def)
qed

section \<open>Properties of the block extractor\<close>

lemma isDuplicate_iff: "isDuplicate b xs = list_ex (overlaps b) xs"
  by (induction xs) simp_all

lemma isDuplicate_append:
  "isDuplicate b (xs @ ys) = (isDuplicate b xs \<or> isDuplicate b ys)"
  by (simp add: isDuplicate_iff)

lemma dedupLoop_kept:
  "\<exists>kept. dedupLoop acc bs = acc @ kept \<and> subseq kept bs \<and>
          (\<forall>b \<in> set kept. \<not> isDuplicate b acc)"
proof (induction bs arbitrary: acc)
  case Nil
  show ?case by simp
next
  case (Cons b bs)
  show ?case
  proof (cases "isDuplicate b acc")
    case True
    from Cons.IH [of acc] obtain kept where
      "dedupLoop acc bs = acc @ kept" "subseq kept bs" "\<forall>b \<in> set kept. \<not> isDuplicate b acc"
      by blast
    with True show ?thesis by (intro exI [of _ kept]) (simp add: list_emb_Cons)
  next
    case False
    from Cons.IH [of "acc @ [b]"] obtain kept where k:
      "dedupLoop (acc @ [b]) bs = (acc @ [b]) @ kept" "subseq kept bs"
      "\<forall>x \<in> set kept. \<not> isDuplicate x (acc @ [b])"
      by blast
    from k(3) have "\<forall>x \<in> set kept. \<not> isDuplicate x acc"
      by (simp add: isDuplicate_append)
    with False k(1,2) show ?thesis by (intro exI [of _ "b # kept"]) simp
  qed
qed

lemma extractCodeBlocks_split:
  "extractCodeBlocks doc = extractMarkdownCodeBlocks doc @ retainedIndented doc"
proof -
  from dedupLoop_kept [of "extractMarkdownCodeBlocks doc" "extractIndentedCodeBlocks doc"]
  obtain kept where "extractCodeBlocks doc = extractMarkdownCodeBlocks doc @ kept"
    by (auto simp: extractCodeBlocks_def)
  then show ?thesis by (simp add: retainedIndented_def)
qed

lemma retainedIndented_kept:
  "subseq (retainedIndented doc) (extractIndentedCodeBlocks doc) \<and>
   (\<forall>b \<in> set (retainedIndented doc). \<not> isDuplicate b (extractMarkdownCodeBlocks doc))"
proof -
  from dedupLoop_kept [of "extractMarkdownCodeBlocks doc" "extractIndentedCodeBlocks doc"]
  obtain kept where k: "extractCodeBlocks doc = extractMarkdownCodeBlocks doc @ kept"
    "subseq kept (extractIndentedCodeBlocks doc)"
    "\<forall>b \<in> set kept. \<not> isDuplicate b (extractMarkdownCodeBlocks doc)"
    by (auto simp: extractCodeBlocks_def)
  from k(1) have "retainedIndented doc = kept" by (simp add: retainedIndented_def)
  with k(2,3) show ?thesis by simp
qed

lemma gap_not_overlaps: "gap k b \<Longrightarrow> \<not> overlaps b k"
  by (simp add: gap_iff overlaps_def)

lemma dedupLoop_filter:
  assumes "sorted_wrt gap bs" and "\<forall>k \<in> set ks. \<forall>b \<in> set bs. gap k b"
  shows "dedupLoop (fs @ ks) bs = fs @ ks @ filter (\<lambda>b. \<not> list_ex (overlaps b) fs) bs"
  using assms
proof (induction bs arbitrary: ks)
  case Nil
  show ?case by simp
next
  case (Cons b bs)
  from Cons.prems(2) have "\<not> isDuplicate b ks"
    by (auto simp: isDuplicate_iff list_ex_iff dest: gap_not_overlaps)
  then have dup: "isDuplicate b (fs @ ks) = list_ex (overlaps b) fs"
    by (simp add: isDuplicate_append) (simp add: isDuplicate_iff)
  show ?case
  proof (cases "list_ex (overlaps b) fs")
    case True
    from Cons.prems have "dedupLoop (fs @ ks) bs = fs @ ks @ filter (\<lambda>b. \<not> list_ex (overlaps b) fs) bs"
      by (intro Cons.IH) auto
    with True dup show ?thesis by simp
  next
    case False
    from Cons.prems
    have "dedupLoop (fs @ (ks @ [b])) bs = fs @ (ks @ [b]) @ filter (\<lambda>b. \<not> list_ex (overlaps b) fs) bs"
      by (intro Cons.IH) auto
    with False dup show ?thesis by simp
  qed
qed

lemma sample_overlaps:
  "overlaps indentedSample2 fencedSample \<and> \<not> overlaps indentedSample1 fencedSample"
  by (simp add: overlaps_def indentedSample1_def indentedSample2_def fencedSample_def)

lemma sampleDoc_blocks: "extractCodeBlocks sampleDoc = [fencedSample, indentedSample1]"
  using sample_overlaps
  by (simp add: extractCodeBlocks_def sampleDoc_fenced sampleDoc_indented)

lemma sampleDoc_retained: "retainedIndented sampleDoc = [indentedSample1]"
  by (simp add: retainedIndented_def sampleDoc_blocks sampleDoc_fenced)

text \<open>
  C4. The part of the extractor's output that comes from the indented scanner contains no
  block that lies fewer than 5 lines from a fenced block of the output whose content includes
  the block's first 100 characters; every indented block that does is dropped.
\<close>

theorem no_duplicate_of_fenced_block:
  "extractCodeBlocks doc = extractMarkdownCodeBlocks doc @ retainedIndented doc \<and>
   (\<forall>B \<in> set (retainedIndented doc). \<forall>F \<in> set (extractMarkdownCodeBlocks doc).
      \<not> (\<bar>int (startLine B) - int (startLine F)\<bar> < 5 \<and>
         str_includes (content F) (take 100 (content B)))) \<and>
   (\<forall>B \<in> set (extractIndentedCodeBlocks doc).
      (\<exists>F \<in> set (extractMarkdownCodeBlocks doc).
         \<bar>int (startLine B) - int (startLine F)\<bar> < 5 \<and>
         str_includes (content F) (take 100 (content B)))
      \<longrightarrow> B \<notin> set (retainedIndented doc))"
proof -
  let ?fenced = "extractMarkdownCodeBlocks doc"
  from retainedIndented_kept [of doc]
  have "\<forall>B \<in> set (retainedIndented doc). \<not> list_ex (overlaps B) ?fenced"
    by (simp add: isDuplicate_iff)
  then have kept: "\<forall>B \<in> set (retainedIndented doc). \<forall>F \<in> set ?fenced.
      \<not> (\<bar>int (startLine B) - int (startLine F)\<bar> < 5 \<and>
         str_includes (content F) (take 100 (content B)))"
    by (auto simp: list_ex_iff overlaps_def)
  then have "\<forall>B \<in> set (extractIndentedCodeBlocks doc).
      (\<exists>F \<in> set ?fenced.
         \<bar>int (startLine B) - int (startLine F)\<bar> < 5 \<and>
         str_includes (content F) (take 100 (content B)))
      \<longrightarrow> B \<notin> set (retainedIndented doc)"
    by blast
  with kept extractCodeBlocks_split [of doc] show ?thesis by blast
qed

theorem no_duplicate_of_fenced_block_witness:
  "indentedSample2 \<in> set (extractIndentedCodeBlocks sampleDoc) \<and>
   fencedSample \<in> set (extractMarkdownCodeBlocks sampleDoc) \<and>
   \<bar>int (startLine indentedSample2) - int (startLine fencedSample)\<bar> < 5 \<and>
   str_includes (content fencedSample) (take 100 (content indentedSample2)) \<and>
   indentedSample2 \<notin> set (retainedIndented sampleDoc) \<and>
   extractCodeBlocks sampleDoc = [fencedSample, indentedSample1]"
proof -
  have i: "indentedSample2 \<in> set (extractIndentedCodeBlocks sampleDoc)"
    by (simp add: sampleDoc_indented)
  have f: "fencedSample \<in> set (extractMarkdownCodeBlocks sampleDoc)"
    by (simp add: sampleDoc_fenced)
  have o: "\<bar>int (startLine indentedSample2) - int (startLine fencedSample)\<bar> < 5 \<and>
           str_includes (content fencedSample) (take 100 (content indentedSample2))"
    using sample_overlaps by (simp add: overlaps_def)
  from no_duplicate_of_fenced_block [of sampleDoc] i f o
  have "indentedSample2 \<notin> set (retainedIndented sampleDoc)" by blast
  with i f o sampleDoc_blocks show ?thesis by simp
qed

text \<open>
  C5. The extractor returns the fenced blocks in scan order, followed by the indented blocks
  that are not duplicates of a fenced block, in scan order. So every fenced block comes
  before every indented block, wherever they stand in the document. Scan order is the order
  of the lines: in each of the two lists the start lines never decrease.
\<close>

theorem fenced_then_indented:
  "extractCodeBlocks doc =
     extractMarkdownCodeBlocks doc @
     filter (\<lambda>B. \<not> list_ex (overlaps B) (extractMarkdownCodeBlocks doc))
       (extractIndentedCodeBlocks doc) \<and>
   sorted (map startLine (extractMarkdownCodeBlocks doc)) \<and>
   sorted (map startLine (extractIndentedCodeBlocks doc))"
proof -
  have "dedupLoop (extractMarkdownCodeBlocks doc @ []) (extractIndentedCodeBlocks doc) =
          extractMarkdownCodeBlocks doc @ [] @
          filter (\<lambda>B. \<not> list_ex (overlaps B) (extractMarkdownCodeBlocks doc))
            (extractIndentedCodeBlocks doc)"
    by (rule dedupLoop_filter) (simp_all add: extractIndentedCodeBlocks_gap)
  then have "extractCodeBlocks doc =
     extractMarkdownCodeBlocks doc @
     filter (\<lambda>B. \<not> list_ex (overlaps B) (extractMarkdownCodeBlocks doc))
       (extractIndentedCodeBlocks doc)"
    by (simp add: extractCodeBlocks_def)
  moreover have "sorted (map startLine (extractMarkdownCodeBlocks doc))"
    by (rule extractMarkdownCodeBlocks_sorted)
  moreover have "sorted_wrt (\<lambda>a b. startLine a \<le> startLine b) (extractIndentedCodeBlocks doc)"
    using extractIndentedCodeBlocks_gap [of doc]
    by (rule sorted_wrt_mono_rel [rotated]) (simp add: gap_iff)
  then have "sorted (map startLine (extractIndentedCodeBlocks doc))"
    by (simp add: sorted_map)
  ultimately show ?thesis by simp
qed

theorem fenced_then_indented_witness:
  "extractMarkdownCodeBlocks sampleDoc = [fencedSample] \<and>
   extractIndentedCodeBlocks sampleDoc = [indentedSample1, indentedSample2] \<and>
   startLine indentedSample1 < startLine fencedSample \<and>
   extractCodeBlocks sampleDoc = [fencedSample, indentedSample1]"
proof -
  from fenced_then_indented [of sampleDoc]
  have "extractCodeBlocks sampleDoc =
          [fencedSample] @ filter (\<lambda>B. \<not> list_ex (overlaps B) [fencedSample])
                            [indentedSample1, indentedSample2]"
    by (simp only: sampleDoc_fenced sampleDoc_indented)
  with sample_overlaps have "extractCodeBlocks sampleDoc = [fencedSample, indentedSample1]"
    by simp
  moreover have "startLine indentedSample1 < startLine fencedSample"
    by (simp add: indentedSample1_def fencedSample_def)
  ultimately show ?thesis by (simp add: sampleDoc_fenced sampleDoc_indented)
qed

section \<open>Properties of generateTopicName\<close>

subsection \<open>Global replacement, step by step\<close>

lemma replace_all_skip:
  assumes "matchR f r (MState p (c # s) []) = []"
  shows "replace_all f r repl p (c # s) = c # replace_all f r repl (Some c) s"
proof (cases "search f r (Some c) s")
  case None
  with assms show ?thesis
    by (subst replace_all.simps, subst (2) replace_all.simps) simp
next
  case (Some m)
  obtain b e where m: "m = (b, e)" by (cases m)
  from Some m search_bounds [of f r "Some c" s b e] have "length (rest b) \<le> length s" by simp
  then have "take (length (c # s) - length (rest b)) (c # s) = c # take (length s - length (rest b)) s"
    by (simp add: Suc_diff_le)
  with assms Some m show ?thesis
    by (subst replace_all.simps, subst (2) replace_all.simps) simp
qed

lemma replace_all_hit:
  assumes "matchR f r (MState p (c # s) []) = e # es" and "length (rest e) < length (c # s)"
  shows "replace_all f r repl p (c # s) = repl @ replace_all f r repl (prev e) (rest e)"
  using assms by (subst replace_all.simps) simp

lemma replace_all_Nil:
  assumes "matchR f r (MState p [] []) = []"
  shows "replace_all f r repl p [] = []"
  using assms by (subst replace_all.simps) simp

text \<open>Deleting the matches of a negated one-character class is filtering.\<close>

lemma replace_all_delete_class:
  "replace_all noflags (RNotClass A) [] p s = filter (class_has noflags A) s"
proof (induction s arbitrary: p)
  case Nil
  show ?case by (simp add: replace_all_Nil)
next
  case (Cons c s)
  show ?case
  proof (cases "class_has noflags A c")
    case True
    then have "matchR noflags (RNotClass A) (MState p (c # s) []) = []" by simp
    from replace_all_skip [OF this] Cons.IH True show ?thesis by simp
  next
    case False
    then have "matchR noflags (RNotClass A) (MState p (c # s) []) = [MState (Some c) s []]"
      by simp
    from replace_all_hit [OF this] Cons.IH False show ?thesis by simp
  qed
qed

text \<open>The greedy \<open>\s+\<close> takes the whole run of whitespace.\<close>

lemma class_space: "class_has noflags [CSpace] c = is_space_char c"
  by (simp add: class_has_def noflags_def)

lemma star_space_longest:
  "\<exists>q es. star_greedy (matchR noflags (RClass [CSpace])) (MState p s cs) =
            MState q (dropWhile is_space_char s) cs # es"
proof (induction s arbitrary: p)
  case Nil
  show ?case by (subst star_greedy.simps) simp
next
  case (Cons c s)
  show ?case
  proof (cases "is_space_char c")
    case True
    from Cons.IH [of "Some c"] obtain q es where
      "star_greedy (matchR noflags (RClass [CSpace])) (MState (Some c) s cs) =
         MState q (dropWhile is_space_char s) cs # es"
      by blast
    with True show ?thesis
      by (subst star_greedy.simps) (simp add: class_space advanced_def)
  next
    case False
    then show ?thesis by (subst star_greedy.simps) (simp add: class_space)
  qed
qed

lemma replace_all_spaces: "replace_all noflags sp_plus ''_'' p s = underscores s"
proof (induction s arbitrary: p rule: underscores.induct)
  case 1
  show ?case by (simp add: replace_all_Nil)
next
  case (2 c cs)
  show ?case
  proof (cases "is_space_char c")
    case True
    from star_space_longest [of "Some c" cs "[]"] obtain q es where
      "star_greedy (matchR noflags (RClass [CSpace])) (MState (Some c) cs []) =
         MState q (dropWhile is_space_char cs) [] # es"
      by blast
    with True have m: "matchR noflags sp_plus (MState p (c # cs) []) =
         MState q (dropWhile is_space_char cs) [] # es"
      by (simp add: class_space)
    have "length (rest (MState q (dropWhile is_space_char cs) [])) < length (c # cs)"
      by (simp add: length_dropWhile_le le_imp_less_Suc)
    from replace_all_hit [OF m this] "2.IH"(1) [OF True] True show ?thesis by simp
  next
    case False
    then have "matchR noflags sp_plus (MState p (c # cs) []) = []"
      by (simp add: class_space)
    from replace_all_skip [OF this] "2.IH"(2) [OF False] False show ?thesis by simp
  qed
qed

lemma cleanTopic_plain: "cleanTopic m1 = take 50 (underscores (trim (filter keptInTopic m1)))"
proof -
  have "class_has noflags [CWord, CSpace, CChar CHR ''-''] = keptInTopic"
    by (auto simp: class_has_def noflags_def keptInTopic_def fun_eq_iff)
  then show ?thesis
    by (simp add: cleanTopic_def replace_all_delete_class replace_all_spaces)
qed

lemma topicLoop_find:
  "topicLoop ps doc =
     (case find (\<lambda>r. search mflag r None doc \<noteq> None) ps of
        Some r \<Rightarrow> Some (cleanTopic (titleText r doc))
      | None \<Rightarrow> None)"
  by (induction ps) (auto simp: titleText_def split: option.splits)

subsection \<open>The topic of a document\<close>

lemma hyphenDoc_topic: "generateTopicName ''notes.md'' hyphenDoc = ''Set-up_guide''"
  by code_simp

text \<open>
  C7 as stated fails. The heading \<open># Set-up guide\<close> gives the topic \<open>Set-up_guide\<close>: the
  hyphen, which is not a word character, is still there, because the class that
  \<open>generateTopicName\<close> deletes is \<open>[^\w\s-]\<close>.
\<close>

theorem topic_keeps_hyphen:
  "generateTopicName ''notes.md'' hyphenDoc = ''Set-up_guide'' \<and>
   CHR ''-'' \<in> set (generateTopicName ''notes.md'' hyphenDoc) \<and>
   \<not> is_word_char CHR ''-'' \<and> \<not> is_space_char CHR ''-''"
  by (simp add: hyphenDoc_topic is_word_char_def is_space_char_def code_def)

text \<open>
  C7, amended. The topic comes from the first of the four title patterns (top-level heading,
  second-level heading, \<open>Title:\<close> line, \<open>Subject:\<close> line, tried in this order) that matches
  anywhere in the document. From the matched text every character other than word characters,
  whitespace and hyphens is deleted, the result is trimmed, every run of whitespace becomes
  one underscore, and the first 50 characters are kept. When no pattern matches, the topic is
  the file name without its extension, or \<open>unknown_topic\<close> when that is empty.
\<close>

theorem generateTopicName_derivation:
  "generateTopicName fname doc =
     (case find (\<lambda>r. search mflag r None doc \<noteq> None) titlePatterns of
        Some r \<Rightarrow> take 50 (underscores (trim (filter keptInTopic (titleText r doc))))
      | None \<Rightarrow>
          (if replace_first noflags extensionPattern [] fname = [] then ''unknown_topic''
           else replace_first noflags extensionPattern [] fname))"
  by (simp add: generateTopicName_def topicLoop_find cleanTopic_plain Let_def
           split: option.splits)

lemma headingDoc_find:
  "find (\<lambda>r. search mflag r None headingDoc \<noteq> None) titlePatterns = Some (hd titlePatterns)"
  by code_simp

lemma headingDoc_text: "titleText (hd titlePatterns) headingDoc = ''Database Setup Discussion''"
  by code_simp

lemma headingDoc_clean:
  "take 50 (underscores (trim (filter keptInTopic ''Database Setup Discussion''))) =
     ''Database_Setup_Discussion''"
  by code_simp

lemma plain_find:
  "find (\<lambda>r. search mflag r None ''plain text'' \<noteq> None) titlePatterns = None"
  by code_simp

lemma plain_names:
  "replace_first noflags extensionPattern [] ''notes.md'' = ''notes'' \<and>
   replace_first noflags extensionPattern [] ''.md'' = []"
  by code_simp

theorem generateTopicName_derivation_witness:
  "generateTopicName ''notes.md'' headingDoc = ''Database_Setup_Discussion'' \<and>
   generateTopicName ''notes.md'' ''plain text'' = ''notes'' \<and>
   generateTopicName ''.md'' ''plain text'' = ''unknown_topic''"
proof -
  have "generateTopicName ''notes.md'' headingDoc = ''Database_Setup_Discussion''"
    by (simp only: generateTopicName_derivation [of "''notes.md''" headingDoc]
          headingDoc_find option.case headingDoc_text headingDoc_clean)
  moreover have "generateTopicName ''notes.md'' ''plain text'' = ''notes''"
    by (simp only: generateTopicName_derivation [of "''notes.md''" "''plain text''"]
          plain_find option.case plain_names) simp
  moreover have "generateTopicName ''.md'' ''plain text'' = ''unknown_topic''"
    by (simp only: generateTopicName_derivation [of "''.md''" "''plain text''"]
          plain_find option.case plain_names) simp
  ultimately show ?thesis by simp
qed

section \<open>Properties of processFile\<close>

lemma fileLoop_files:
  "fst (fileLoop bs i acc stats) = acc @ map (\<lambda>(k, b). makeFile k b) (zip [i ..< i + length bs] bs)"
proof (induction bs arbitrary: i acc stats)
  case Nil
  show ?case by simp
next
  case (Cons b bs)
  have "[i ..< i + length (b # bs)] = i # [Suc i ..< Suc i + length bs]"
    by (subst upt_rec) simp
  with Cons.IH [of "Suc i"] show ?case by simp
qed

lemma fileLoop_counters:
  "filesProcessed (snd (fileLoop bs i acc stats)) = filesProcessed stats \<and>
   codeBlocksFound (snd (fileLoop bs i acc stats)) = codeBlocksFound stats \<and>
   topicsCreated (snd (fileLoop bs i acc stats)) = topicsCreated stats"
  by (induction bs arbitrary: i acc stats) simp_all

lemma zero_blocks_stop:
  "contents file = Some doc \<Longrightarrow> extractCodeBlocks doc = [] \<Longrightarrow>
   processFile stats now file = (NoBlocks ''No code blocks found'', stats)"
  by (simp add: processFile_def readFileAsText_def)

lemma processFile_blocks:
  assumes "contents file = Some doc" and "extractCodeBlocks doc \<noteq> []"
  shows "processFile stats now file =
    (Extracted \<lparr>topic = generateTopicName (name file) doc,
                blocksExtracted = length (extractCodeBlocks doc),
                files = fst (fileLoop (extractCodeBlocks doc) 0 [] stats),
                metadata = \<lparr>sourceFile = name file,
                             metaTopic = generateTopicName (name file) doc,
                             totalBlocks = length (extractCodeBlocks doc),
                             codeFiles = map fileInfo (fst (fileLoop (extractCodeBlocks doc) 0 [] stats)),
                             processedAt = now\<rparr>\<rparr>,
     (snd (fileLoop (extractCodeBlocks doc) 0 [] stats))
       \<lparr>filesProcessed := filesProcessed (snd (fileLoop (extractCodeBlocks doc) 0 [] stats)) + 1,
        codeBlocksFound := codeBlocksFound (snd (fileLoop (extractCodeBlocks doc) 0 [] stats))
                             + length (extractCodeBlocks doc),
        topicsCreated := set_add (topicsCreated (snd (fileLoop (extractCodeBlocks doc) 0 [] stats)))
                           (generateTopicName (name file) doc)\<rparr>)"
  using assms by (simp add: processFile_def readFileAsText_def Let_def case_prod_unfold)

subsection \<open>Files and blocks are aligned\<close>

lemma fencedDoc_indented: "extractIndentedCodeBlocks fencedDoc = []"
  by code_simp

lemma fencedDoc_blocks:
  "extractCodeBlocks fencedDoc =
     [\<lparr>content = ''def f(x): return x + 1 # py'', language = ''js'', startLine = 1,
       hash = ''773a97ce''\<rparr>]"
  by (simp add: extractCodeBlocks_def fencedDoc_fenced fencedDoc_indented)

text \<open>
  C9. In every result that carries files, \<open>files\<close> has one entry per extracted block, and
  entry \<open>i\<close> is built from block \<open>i\<close> (and its position) alone: it has that block's hash,
  content and language.
\<close>

theorem files_index_aligned:
  assumes "processFile stats now file = (Extracted r, stats')"
  shows "\<exists>doc. contents file = Some doc \<and>
           length (files r) = length (extractCodeBlocks doc) \<and>
           blocksExtracted r = length (extractCodeBlocks doc) \<and>
           (\<forall>i < length (extractCodeBlocks doc).
              files r ! i = makeFile i (extractCodeBlocks doc ! i) \<and>
              fileHash (files r ! i) = hash (extractCodeBlocks doc ! i) \<and>
              fileContent (files r ! i) = content (extractCodeBlocks doc ! i) \<and>
              fileLanguage (files r ! i) = language (extractCodeBlocks doc ! i))"
proof (cases "contents file")
  case None
  with assms show ?thesis by (simp add: processFile_def readFileAsText_def)
next
  case (Some doc)
  let ?bs = "extractCodeBlocks doc"
  have ne: "?bs \<noteq> []"
  proof
    assume "?bs = []"
    with Some have "processFile stats now file = (NoBlocks ''No code blocks found'', stats)"
      by (rule zero_blocks_stop)
    with assms show False by simp
  qed
  from processFile_blocks [OF Some ne, of stats now] assms
  have r: "files r = fst (fileLoop ?bs 0 [] stats)" and n: "blocksExtracted r = length ?bs"
    by auto
  from r have fs: "files r = map (\<lambda>(k, b). makeFile k b) (zip [0 ..< length ?bs] ?bs)"
    using fileLoop_files [of ?bs 0 "[]" stats] by simp
  have al: "\<forall>i < length ?bs. files r ! i = makeFile i (?bs ! i)"
    by (simp add: fs)
  have len: "length (files r) = length ?bs"
    by (simp add: fs)
  have "\<forall>i < length ?bs.
          fileHash (makeFile i (?bs ! i)) = hash (?bs ! i) \<and>
          fileContent (makeFile i (?bs ! i)) = content (?bs ! i) \<and>
          fileLanguage (makeFile i (?bs ! i)) = language (?bs ! i)"
    by (simp add: makeFile_def Let_def)
  with al len n Some show ?thesis by simp
qed

theorem files_index_aligned_witness:
  "\<exists>r s. processFile emptyStats ''2024-01-01T00:00:00.000Z'' fencedFile = (Extracted r, s) \<and>
     length (files r) = 1 \<and>
     fileHash (files r ! 0) = hash (extractCodeBlocks fencedDoc ! 0) \<and>
     fileContent (files r ! 0) = content (extractCodeBlocks fencedDoc ! 0) \<and>
     fileLanguage (files r ! 0) = language (extractCodeBlocks fencedDoc ! 0)"
proof -
  have c: "contents fencedFile = Some fencedDoc" by (simp add: fencedFile_def)
  have ne: "extractCodeBlocks fencedDoc \<noteq> []" by (simp add: fencedDoc_blocks)
  from processFile_blocks [OF c ne, of emptyStats "''2024-01-01T00:00:00.000Z''"]
  obtain r s where rs:
    "processFile emptyStats ''2024-01-01T00:00:00.000Z'' fencedFile = (Extracted r, s)"
    by blast
  from files_index_aligned [OF rs] c
  have "length (files r) = length (extractCodeBlocks fencedDoc)"
    and "\<forall>i < length (extractCodeBlocks fencedDoc).
           fileHash (files r ! i) = hash (extractCodeBlocks fencedDoc ! i) \<and>
           fileContent (files r ! i) = content (extractCodeBlocks fencedDoc ! i) \<and>
           fileLanguage (files r ! i) = language (extractCodeBlocks fencedDoc ! i)"
    by auto
  then have "length (files r) = 1 \<and>
     fileHash (files r ! 0) = hash (extractCodeBlocks fencedDoc ! 0) \<and>
     fileContent (files r ! 0) = content (extractCodeBlocks fencedDoc ! 0) \<and>
     fileLanguage (files r ! 0) = language (extractCodeBlocks fencedDoc ! 0)"
    by (simp add: fencedDoc_blocks)
  with rs show ?thesis by blast
qed

subsection \<open>Documents without code blocks\<close>

lemma proseDoc_blocks: "extractCodeBlocks proseDoc = []"
  by code_simp

text \<open>
  C1 as stated fails. The document \<open>hello\<close> yields no block, and processing it leaves
  \<open>filesProcessed\<close> at its old value instead of adding one: \<open>processFile\<close> returns at its
  guard \<open>codeBlocks.length === 0\<close>, before the statements that update the statistics.
\<close>

theorem zero_blocks_not_counted:
  "extractCodeBlocks proseDoc = [] \<and>
   filesProcessed (snd (processFile emptyStats ''2024-01-01T00:00:00.000Z'' proseFile))
     \<noteq> filesProcessed emptyStats + 1"
  by (simp add: proseDoc_blocks processFile_def readFileAsText_def proseFile_def emptyStats_def)

text \<open>
  C1, amended. Processing a document that yields zero code blocks returns the message
  \<open>No code blocks found\<close> and leaves all four members of the statistics unchanged,
  \<open>filesProcessed\<close> included.
\<close>

theorem zero_blocks_leave_stats:
  assumes "contents file = Some doc" and "extractCodeBlocks doc = []"
  shows "processFile stats now file = (NoBlocks ''No code blocks found'', stats)"
  using assms by (simp add: processFile_def readFileAsText_def)

theorem zero_blocks_leave_stats_witness:
  "contents proseFile = Some proseDoc \<and> extractCodeBlocks proseDoc = [] \<and>
   processFile emptyStats ''2024-01-01T00:00:00.000Z'' proseFile =
     (NoBlocks ''No code blocks found'', emptyStats)"
proof -
  have c: "contents proseFile = Some proseDoc" by (simp add: proseFile_def)
  from zero_blocks_leave_stats [OF c proseDoc_blocks] c proseDoc_blocks
  show ?thesis by simp
qed

subsection \<open>Documents that cannot be read\<close>

text \<open>
  C10. When reading the document fails, \<open>processFile\<close> returns the error record and the
  statistics it was given: no counter and no set has changed.
\<close>

theorem read_failure_leaves_stats:
  assumes "contents file = None"
  shows "processFile stats now file =
           (Failed ''Failed to process file: Failed to read file'', stats)"
  using assms by (simp add: processFile_def readFileAsText_def)

theorem read_failure_leaves_stats_witness:
  "processFile emptyStats ''2024-01-01T00:00:00.000Z'' \<lparr>name = ''notes.md'', contents = None\<rparr> =
     (Failed ''Failed to process file: Failed to read file'', emptyStats)"
  using read_failure_leaves_stats
          [of "\<lparr>name = ''notes.md'', contents = None\<rparr>" emptyStats "''2024-01-01T00:00:00.000Z''"]
  by simp

end
